theory Spec2Isabelle
  imports Main "HOL-Library.Word" "HOL-Library.Multiset" "HOL-Library.Product_Lexorder"
    "HOL-Library.Code_Target_Nat"
begin

section \<open>Data model of the scheduler (scheduler.cc)\<close>

text \<open>
  A graph node is identified by its lemon id: a fresh \<open>ListDigraph\<close> numbers its nodes
  0, 1, 2, ... in the order of \<open>addNode\<close>. A gate object (\<open>gate*\<close>) is addressed by the id
  of its node: \<open>instruction\<close> and \<open>node\<close> are built by \<open>init\<close> as mutually inverse maps, so
  the circuit (a vector of gate pointers) is a list of node ids and the gate objects live
  in the map \<open>instruction\<close>. The members \<open>s\<close> and \<open>t\<close> are the fields \<open>node_s\<close> and \<open>node_t\<close>.

  \<open>size_t\<close> values that the scheduler computes with (cycles, remaining) are 64-bit words,
  with the wrap-around of unsigned arithmetic. Durations, operand indices and the cycle
  time are only read and are natural numbers.
\<close>

type_synonym node = nat
type_synonym size_t = "64 word"

datatype DepTypes = RAW | WAW | WAR | RAR | RAD | DAR | DAD | WAD | DAW

text \<open>Of the gate type tags only the four that the scheduler tests are distinguished.\<close>

datatype gate_type_t =
  dummy_gate | classical_gate | wait_gate | remap_gate | quantum_gate

record gate =
  name :: string
  gtype :: gate_type_t
  operands :: "nat list"
  creg_operands :: "nat list"
  duration :: nat
  cycle :: size_t

record arc =
  src :: node
  tgt :: node
  weight :: int
  cause :: nat
  depType :: DepTypes

datatype scheduling_direction_t = forward_scheduling | backward_scheduling

record quantum_platform =
  platform_cycle_time :: nat
  qubit_number :: nat

text \<open>
  The classes SOURCE and SINK and the constants \<open>MAX_CYCLE\<close> and \<open>ALAP_SINK_CYCLE\<close> are
  declared outside scheduler.cc; they are parameters of the model. The options registry
  (\<open>options::get\<close>) maps an option name to its value.
\<close>

record constants =
  SOURCE :: gate
  SINK :: gate
  MAX_CYCLE :: size_t
  ALAP_SINK_CYCLE :: size_t

type_synonym options = "string \<Rightarrow> string"

record Scheduler =
  nodes :: nat
  arcs :: "arc list"
  instruction :: "node \<Rightarrow> gate"
  node_s :: node
  node_t :: node
  circp :: "node list"
  cycle_time :: nat
  qubit_count :: nat
  creg_count :: nat
  remaining :: "node \<Rightarrow> size_t"

datatype error = NotADag | UnsupportedScheduler string

section \<open>Arc weights: \<open>std::ceil\<close> of a binary32 quotient\<close>

text \<open>
  \<open>add_dep\<close> computes \<open>int(std::ceil(static_cast<float>(duration) / cycle_time))\<close>: both
  integers are converted to binary32, the quotient is rounded to binary32, and the
  ceiling of that is taken. \<open>ceil_fl n d\<close> is the ceiling of the binary32 nearest to the
  exact quotient \<open>n / d\<close> (24 significant bits, ties to even), for \<open>n \<ge> 0\<close> and \<open>d > 0\<close>; the
  quotients that occur are far inside the normal range of binary32. \<open>float_of n\<close> is the
  value of \<open>static_cast<float>(n)\<close>, an integer. \<open>ceil_quot\<close> is the value of the
  \<open>std::ceil\<close>: an integer, or nothing when the cycle time is 0 and the quotient is infinite
  or not a number.

  \<open>add_dep\<close> converts that value to \<open>int\<close>. The conversion of a value that an \<open>int\<close> cannot
  hold is not defined by the language; the conversion instruction of x86 returns
  \<open>-2147483648\<close> for it, and that is what \<open>arc_weight\<close> returns. The uniform scheduler
  converts the same value to \<open>size_t\<close>: every finite value is at most \<open>2\<^sup>6\<^sup>4\<close>, and
  \<open>size_weight\<close> reduces it modulo \<open>2\<^sup>6\<^sup>4\<close>.
\<close>

function bitlen :: "int \<Rightarrow> nat" where
  "bitlen n = (if n \<le> 0 then 0 else Suc (bitlen (n div 2)))"
  by pat_completeness auto
termination
  by (relation "measure nat") auto

declare bitlen.simps [simp del]

definition round_even :: "int \<Rightarrow> int \<Rightarrow> int" where
  "round_even n d =
     (let q = n div d; r = n mod d
      in if d < 2 * r \<or> (2 * r = d \<and> odd q) then q + 1 else q)"

definition ceil_fl :: "int \<Rightarrow> int \<Rightarrow> int" where
  "ceil_fl n d =
     (if n \<le> 0 then 0
      else
        let k0 = int (bitlen n) - int (bitlen d);
            k = (if 0 \<le> k0 then (if d * 2 ^ nat k0 \<le> n then k0 else k0 - 1)
                 else (if d \<le> n * 2 ^ nat (- k0) then k0 else k0 - 1));
            e = k - 23
        in if 0 \<le> e then round_even n (d * 2 ^ nat e) * 2 ^ nat e
           else (round_even (n * 2 ^ nat (- e)) d + 2 ^ nat (- e) - 1) div 2 ^ nat (- e))"

definition float_of :: "nat \<Rightarrow> int" where
  "float_of n = ceil_fl (int n) 1"

definition ceil_quot :: "nat \<Rightarrow> nat \<Rightarrow> int option" where
  "ceil_quot dur ct = (if ct = 0 then None else Some (ceil_fl (float_of dur) (float_of ct)))"

definition arc_weight :: "nat \<Rightarrow> nat \<Rightarrow> int" where
  "arc_weight dur ct =
     (case ceil_quot dur ct of
        None \<Rightarrow> - 2147483648
      | Some c \<Rightarrow> if c < 2147483648 then c else - 2147483648)"

definition size_weight :: "nat \<Rightarrow> nat \<Rightarrow> size_t" where
  "size_weight dur ct = (case ceil_quot dur ct of None \<Rightarrow> 0 | Some c \<Rightarrow> of_int c)"

section \<open>Dependence graph construction\<close>

definition stripname :: "string \<Rightarrow> string" where
  "stripname nm = takeWhile (\<lambda>c. c \<noteq> CHR '' '') nm"

definition add_dep :: "Scheduler \<Rightarrow> node \<Rightarrow> node \<Rightarrow> DepTypes \<Rightarrow> nat \<Rightarrow> Scheduler" where
  "add_dep g srcID tgtID deptype operand =
     g\<lparr>arcs := arcs g @
        [\<lparr>src = srcID, tgt = tgtID,
          weight = arc_weight (duration (instruction g srcID)) (cycle_time g),
          cause = operand, depType = deptype\<rparr>]\<rparr>"

text \<open>A loop \<open>for (auto &readerID : L) add_dep(readerID, consID, dt, operand)\<close>.\<close>

definition add_deps :: "Scheduler \<Rightarrow> node list \<Rightarrow> node \<Rightarrow> DepTypes \<Rightarrow> nat \<Rightarrow> Scheduler" where
  "add_deps g srcs tgtID deptype operand =
     fold (\<lambda>r g'. add_dep g' r tgtID deptype operand) srcs g"

record last_uses =
  LastWriter :: "nat \<Rightarrow> node"
  LastReaders :: "nat \<Rightarrow> node list"
  LastDs :: "nat \<Rightarrow> node list"

text \<open>The three dependences of a Write event on an operand.\<close>

definition write_deps :: "last_uses \<Rightarrow> node \<Rightarrow> nat \<Rightarrow> Scheduler \<Rightarrow> Scheduler" where
  "write_deps l consID operand g =
     add_deps
       (add_deps (add_dep g (LastWriter l operand) consID WAW operand)
          (LastReaders l operand) consID WAR operand)
       (LastDs l operand) consID WAD operand"

text \<open>The measure branch adds no WAD dependence for a classical operand.\<close>

definition write_deps_creg :: "last_uses \<Rightarrow> node \<Rightarrow> nat \<Rightarrow> Scheduler \<Rightarrow> Scheduler" where
  "write_deps_creg l consID operand g =
     add_deps (add_dep g (LastWriter l operand) consID WAW operand)
       (LastReaders l operand) consID WAR operand"

definition write_update :: "node \<Rightarrow> nat \<Rightarrow> last_uses \<Rightarrow> last_uses" where
  "write_update consID operand l =
     l\<lparr>LastWriter := (LastWriter l)(operand := consID),
       LastReaders := (LastReaders l)(operand := []),
       LastDs := (LastDs l)(operand := [])\<rparr>"

definition write_update_creg :: "node \<Rightarrow> nat \<Rightarrow> last_uses \<Rightarrow> last_uses" where
  "write_update_creg consID operand l =
     l\<lparr>LastWriter := (LastWriter l)(operand := consID),
       LastReaders := (LastReaders l)(operand := [])\<rparr>"

text \<open>cnot: the first operand is Read, every later one is D.\<close>

definition cnot_deps ::
  "options \<Rightarrow> last_uses \<Rightarrow> node \<Rightarrow> nat \<times> nat \<Rightarrow> Scheduler \<Rightarrow> Scheduler" where
  "cnot_deps opts l consID p g =
     (let operandNo = fst p; operand = snd p in
      if operandNo = 0 then
        (let g1 = add_dep g (LastWriter l operand) consID RAW operand;
             g2 = (if opts ''scheduler_commute'' = ''no''
                   then add_deps g1 (LastReaders l operand) consID RAR operand else g1)
         in add_deps g2 (LastDs l operand) consID RAD operand)
      else
        (let g1 = add_dep g (LastWriter l operand) consID DAW operand;
             g2 = (if opts ''scheduler_commute'' = ''no''
                   then add_deps g1 (LastDs l operand) consID DAD operand else g1)
         in add_deps g2 (LastReaders l operand) consID DAR operand))"

definition cnot_update :: "node \<Rightarrow> nat \<times> nat \<Rightarrow> last_uses \<Rightarrow> last_uses" where
  "cnot_update consID p l =
     (let operandNo = fst p; operand = snd p in
      if operandNo = 0 then
        l\<lparr>LastReaders := (LastReaders l)(operand := LastReaders l operand @ [consID]),
          LastDs := (LastDs l)(operand := [])\<rparr>
      else
        l\<lparr>LastDs := (LastDs l)(operand := LastDs l operand @ [consID]),
          LastReaders := (LastReaders l)(operand := [])\<rparr>)"

text \<open>cz and cphase: every operand is Read.\<close>

definition cz_deps :: "options \<Rightarrow> last_uses \<Rightarrow> node \<Rightarrow> nat \<Rightarrow> Scheduler \<Rightarrow> Scheduler" where
  "cz_deps opts l consID operand g =
     (let g1 = (if opts ''scheduler_commute'' = ''no''
                then add_deps g (LastReaders l operand) consID RAR operand else g);
          g2 = add_dep g1 (LastWriter l operand) consID RAW operand
      in add_deps g2 (LastDs l operand) consID RAD operand)"

definition cz_update :: "node \<Rightarrow> nat \<Rightarrow> last_uses \<Rightarrow> last_uses" where
  "cz_update consID operand l =
     l\<lparr>LastDs := (LastDs l)(operand := []),
       LastReaders := (LastReaders l)(operand := LastReaders l operand @ [consID])\<rparr>"

text \<open>The catch-all branch updates the bookkeeping inside the operand loop.\<close>

definition generic_step :: "node \<Rightarrow> nat \<Rightarrow> Scheduler \<times> last_uses \<Rightarrow> Scheduler \<times> last_uses" where
  "generic_step consID operand p =
     (write_deps (snd p) consID operand (fst p), write_update consID operand (snd p))"

text \<open>
  The body of the loop over the circuit: add the node of \<open>ins\<close>, then the arcs of its
  events, selected by the stripped name and the gate type in the order of the if-chain.
\<close>

definition add_gate :: "options \<Rightarrow> gate \<Rightarrow> Scheduler \<times> last_uses \<Rightarrow> Scheduler \<times> last_uses" where
  "add_gate opts ins p =
     (let g0 = fst p; l = snd p;
          iname = stripname (name ins);
          consID = nodes g0;
          g = g0\<lparr>nodes := Suc consID, instruction := (instruction g0)(consID := ins)\<rparr>;
          qc = qubit_count g;
          cops = map (\<lambda>c. qc + c) (creg_operands ins)
      in
      if iname = ''measure'' then
        (fold (write_deps_creg l consID) cops (fold (write_deps l consID) (operands ins) g),
         fold (write_update_creg consID) cops (fold (write_update consID) (operands ins) l))
      else if iname = ''display'' then
        (fold (write_deps l consID) [0 ..< qc + creg_count g] g,
         fold (write_update consID) [0 ..< qc + creg_count g] l)
      else if gtype ins = classical_gate then
        (fold (write_deps l consID) cops g, fold (write_update consID) cops l)
      else if iname = ''cnot'' then
        (fold (cnot_deps opts l consID) (enumerate 0 (operands ins)) g,
         fold (cnot_update consID) (enumerate 0 (operands ins)) l)
      else if iname = ''cz'' \<or> iname = ''cphase'' then
        (fold (cz_deps opts l consID) (operands ins) g,
         fold (cz_update consID) (operands ins) l)
      else
        fold (generic_step consID) cops (fold (generic_step consID) (operands ins) (g, l)))"

text \<open>
  \<open>dag\<close> is lemon's test that the digraph has no directed cycle.
\<close>

definition dag :: "Scheduler \<Rightarrow> bool" where
  "dag g = acyclic (set (map (\<lambda>a. (src a, tgt a)) (arcs g)))"

definition init_graph ::
  "constants \<Rightarrow> options \<Rightarrow> gate list \<Rightarrow> quantum_platform \<Rightarrow> nat \<Rightarrow> nat \<Rightarrow> Scheduler" where
  "init_graph k opts ckt platform qcount ccount =
     (let g0 = \<lparr>nodes = 1, arcs = [], instruction = (\<lambda>_. SOURCE k),
                node_s = 0, node_t = 0,
                circp = [1 ..< Suc (length ckt)],
                cycle_time = platform_cycle_time platform,
                qubit_count = qcount, creg_count = ccount, remaining = (\<lambda>_. 0)\<rparr>;
          l0 = \<lparr>LastWriter = (\<lambda>_. 0), LastReaders = (\<lambda>_. []), LastDs = (\<lambda>_. [])\<rparr>;
          p = fold (add_gate opts) ckt (g0, l0);
          g1 = fst p; l1 = snd p;
          consID = nodes g1;
          g2 = g1\<lparr>nodes := Suc consID, instruction := (instruction g1)(consID := SINK k),
                 node_t := consID\<rparr>
      in fold (write_deps l1 consID) [0 ..< qcount + ccount] g2)"

definition init ::
  "constants \<Rightarrow> options \<Rightarrow> gate list \<Rightarrow> quantum_platform \<Rightarrow> nat \<Rightarrow> nat \<Rightarrow> error + Scheduler" where
  "init k opts ckt platform qcount ccount =
     (let g = init_graph k opts ckt platform qcount ccount
      in if \<not> dag g then Inl NotADag else Inr g)"


section \<open>Cycle assignment without resource constraints\<close>

text \<open>
  lemon's \<open>addArc\<close> links a new arc at the head of the arc lists of its end nodes, so
  \<open>InArcIt\<close> and \<open>OutArcIt\<close> visit the arcs of a node from the newest to the oldest.
\<close>

definition in_arcs :: "Scheduler \<Rightarrow> node \<Rightarrow> arc list" where
  "in_arcs g n = rev (filter (\<lambda>a. tgt a = n) (arcs g))"

definition out_arcs :: "Scheduler \<Rightarrow> node \<Rightarrow> arc list" where
  "out_arcs g n = rev (filter (\<lambda>a. src a = n) (arcs g))"

definition cycle_of :: "Scheduler \<Rightarrow> node \<Rightarrow> size_t" where
  "cycle_of g n = cycle (instruction g n)"

definition set_cycle_of :: "node \<Rightarrow> size_t \<Rightarrow> Scheduler \<Rightarrow> Scheduler" where
  "set_cycle_of n c g = g\<lparr>instruction := (instruction g)(n := (instruction g n)\<lparr>cycle := c\<rparr>)\<rparr>"

text \<open>
  The weight is an \<open>int\<close>; adding it to a \<open>size_t\<close> converts it to \<open>size_t\<close>, modulo
  \<open>2\<^sup>6\<^sup>4\<close>.
\<close>

definition set_cycle_gate ::
  "constants \<Rightarrow> scheduling_direction_t \<Rightarrow> node \<Rightarrow> Scheduler \<Rightarrow> Scheduler" where
  "set_cycle_gate k dir n g =
     (if dir = forward_scheduling then
        set_cycle_of n
          (fold (\<lambda>a currCycle. max currCycle (cycle_of g (src a) + of_int (weight a)))
             (in_arcs g n) 0) g
      else
        set_cycle_of n
          (fold (\<lambda>a currCycle. min currCycle (cycle_of g (tgt a) - of_int (weight a)))
             (out_arcs g n) (MAX_CYCLE k)) g)"

definition shift_cycle :: "size_t \<Rightarrow> node \<Rightarrow> Scheduler \<Rightarrow> Scheduler" where
  "shift_cycle SOURCECycle n g = set_cycle_of n (cycle_of g n - SOURCECycle) g"

text \<open>The readjustment that puts SOURCE at cycle 0: SINK first, then the circuit, then SOURCE.\<close>

definition readjust :: "Scheduler \<Rightarrow> Scheduler" where
  "readjust g =
     (let SOURCECycle = cycle_of g (node_s g)
      in shift_cycle SOURCECycle (node_s g)
           (fold (shift_cycle SOURCECycle) (circp g)
              (shift_cycle SOURCECycle (node_t g) g)))"

definition set_cycle :: "constants \<Rightarrow> scheduling_direction_t \<Rightarrow> Scheduler \<Rightarrow> Scheduler" where
  "set_cycle k dir g =
     (if dir = forward_scheduling then
        set_cycle_gate k dir (node_t g)
          (fold (set_cycle_gate k dir) (circp g) (set_cycle_of (node_s g) 0 g))
      else
        readjust
          (set_cycle_gate k dir (node_s g)
             (fold (set_cycle_gate k dir) (rev (circp g))
                (set_cycle_of (node_t g) (ALAP_SINK_CYCLE k) g))))"

text \<open>\<open>std::stable_sort\<close> of the circuit with \<open>cycle_lessthan\<close>.\<close>

definition sort_by_cycle :: "Scheduler \<Rightarrow> Scheduler" where
  "sort_by_cycle g = g\<lparr>circp := sort_key (cycle_of g) (circp g)\<rparr>"

text \<open>The DOT text that the schedulers can emit is not modelled.\<close>

definition schedule_asap :: "constants \<Rightarrow> Scheduler \<Rightarrow> Scheduler" where
  "schedule_asap k g = sort_by_cycle (set_cycle k forward_scheduling g)"

definition schedule_alap :: "constants \<Rightarrow> Scheduler \<Rightarrow> Scheduler" where
  "schedule_alap k g = sort_by_cycle (set_cycle k backward_scheduling g)"

text \<open>\<open>get_dot(std::string &dot)\<close> assigns ASAP cycles and sorts before it renders.\<close>

definition get_dot :: "constants \<Rightarrow> Scheduler \<Rightarrow> Scheduler" where
  "get_dot k g = sort_by_cycle (set_cycle k forward_scheduling g)"

section \<open>Criticality\<close>

definition set_remaining_gate :: "scheduling_direction_t \<Rightarrow> node \<Rightarrow> Scheduler \<Rightarrow> Scheduler" where
  "set_remaining_gate dir n g =
     (if dir = forward_scheduling then
        g\<lparr>remaining := (remaining g)(n :=
            fold (\<lambda>a currRemain. max currRemain (remaining g (tgt a) + of_int (weight a)))
              (out_arcs g n) 0)\<rparr>
      else
        g\<lparr>remaining := (remaining g)(n :=
            fold (\<lambda>a currRemain. max currRemain (remaining g (src a) + of_int (weight a)))
              (in_arcs g n) 0)\<rparr>)"

definition set_remaining :: "scheduling_direction_t \<Rightarrow> Scheduler \<Rightarrow> Scheduler" where
  "set_remaining dir g =
     (let g0 = g\<lparr>remaining := (\<lambda>_. 0)\<rparr> in
      if dir = forward_scheduling then
        set_remaining_gate dir (node_s g)
          (fold (set_remaining_gate dir) (rev (circp g))
             (g0\<lparr>remaining := (remaining g0)(node_t g := 0)\<rparr>))
      else
        set_remaining_gate dir (node_t g)
          (fold (set_remaining_gate dir) (circp g)
             (g0\<lparr>remaining := (remaining g0)(node_s g := 0)\<rparr>)))"

text \<open>The nodes that directly depend on \<open>n\<close> in the given direction, without duplicates.\<close>

definition get_depending_nodes ::
  "Scheduler \<Rightarrow> node \<Rightarrow> scheduling_direction_t \<Rightarrow> node list \<Rightarrow> node list" where
  "get_depending_nodes g n dir ln =
     (if dir = forward_scheduling then
        fold (\<lambda>a ln'. if tgt a \<in> set ln' then ln' else ln' @ [tgt a]) (out_arcs g n) ln
      else
        fold (\<lambda>a ln'. if src a \<in> set ln' then ln' else ln' @ [src a]) (in_arcs g n) ln)"

text \<open>
  \<open>std::list::sort\<close> with a comparison that may itself fail to return: a stable sort that
  returns nothing as soon as one comparison returns nothing. For a strict weak order
  every stable sort returns the same list.
\<close>

fun insert_sorted :: "('a \<Rightarrow> 'a \<Rightarrow> bool option) \<Rightarrow> 'a \<Rightarrow> 'a list \<Rightarrow> 'a list option" where
  "insert_sorted lt x [] = Some [x]"
| "insert_sorted lt x (y # ys) =
     (case lt y x of
        None \<Rightarrow> None
      | Some True \<Rightarrow> map_option ((#) y) (insert_sorted lt x ys)
      | Some False \<Rightarrow> Some (x # y # ys))"

fun list_sort :: "('a \<Rightarrow> 'a \<Rightarrow> bool option) \<Rightarrow> 'a list \<Rightarrow> 'a list option" where
  "list_sort lt [] = Some []"
| "list_sort lt (x # xs) =
     (case list_sort lt xs of None \<Rightarrow> None | Some ys \<Rightarrow> insert_sorted lt x ys)"

text \<open>
  \<open>criticality_lessthan\<close> calls itself, directly and as the comparison of two sorts. The
  first argument of the model bounds the depth of the calls: \<open>None\<close> means that the depth
  was not enough.
\<close>

primrec criticality_lessthan ::
  "nat \<Rightarrow> Scheduler \<Rightarrow> scheduling_direction_t \<Rightarrow> node \<Rightarrow> node \<Rightarrow> bool option" where
  "criticality_lessthan 0 g dir n1 n2 = None"
| "criticality_lessthan (Suc depth) g dir n1 n2 =
     (if n1 = n2 then Some False
      else if remaining g n1 < remaining g n2 then Some True
      else if remaining g n1 > remaining g n2 then Some False
      else
        let ln1 = get_depending_nodes g n1 dir [];
            ln2 = get_depending_nodes g n2 dir []
        in
        if ln2 = [] then Some False
        else if ln1 = [] then Some True
        else
          let sl1 = sort_key (remaining g) ln1;
              sl2 = sort_key (remaining g) ln2;
              crit_dep_n1 = remaining g (last sl1);
              crit_dep_n2 = remaining g (last sl2)
          in
          if crit_dep_n1 < crit_dep_n2 then Some True
          else if crit_dep_n1 > crit_dep_n2 then Some False
          else
            let tl1 = filter (\<lambda>n. \<not> remaining g n < crit_dep_n1) sl1;
                tl2 = filter (\<lambda>n. \<not> remaining g n < crit_dep_n2) sl2
            in
            if length tl1 < length tl2 then Some True
            else if length tl1 > length tl2 then Some False
            else
              (case list_sort (criticality_lessthan depth g dir) tl1 of
                 None \<Rightarrow> None
               | Some cl1 \<Rightarrow>
                   (case list_sort (criticality_lessthan depth g dir) tl2 of
                      None \<Rightarrow> None
                    | Some cl2 \<Rightarrow> criticality_lessthan depth g dir (last cl1) (last cl2))))"

declare criticality_lessthan.simps(2) [simp del]


section \<open>The list scheduler with resource constraints\<close>

text \<open>
  The resource manager is a collaborator outside scheduler.cc: its state has an
  arbitrary type \<open>'r\<close>, and its constructor and its two operations are parameters.
\<close>

record 'r resource_manager_t =
  rm_new :: "quantum_platform \<Rightarrow> scheduling_direction_t \<Rightarrow> 'r"
  rm_available :: "'r \<Rightarrow> size_t \<Rightarrow> gate \<Rightarrow> quantum_platform \<Rightarrow> bool"
  rm_reserve :: "'r \<Rightarrow> size_t \<Rightarrow> gate \<Rightarrow> quantum_platform \<Rightarrow> 'r"

text \<open>The variables of \<open>Scheduler::schedule\<close>, with the scheduler object itself.\<close>

record 'r sched_state =
  graph :: Scheduler
  avlist :: "node list"
  scheduled :: "node \<Rightarrow> bool"
  curr_cycle :: size_t
  rm :: 'r

definition init_available ::
  "constants \<Rightarrow> scheduling_direction_t \<Rightarrow> 'r sched_state \<Rightarrow> 'r sched_state" where
  "init_available k dir st =
     (let g = graph st in
      if dir = forward_scheduling then
        st\<lparr>curr_cycle := 0, graph := set_cycle_of (node_s g) 0 g, avlist := [node_s g]\<rparr>
      else
        st\<lparr>curr_cycle := ALAP_SINK_CYCLE k,
           graph := set_cycle_of (node_t g) (ALAP_SINK_CYCLE k) g, avlist := [node_t g]\<rparr>)"

text \<open>
  \<open>MakeAvailable\<close> compares every element of the available list other than \<open>n\<close> with
  \<open>n\<close> (the comparison is the left operand of \<open>&&\<close>), and inserts \<open>n\<close> before the first
  element of lower criticality, or at the end.
\<close>

definition MakeAvailable ::
  "constants \<Rightarrow> nat \<Rightarrow> scheduling_direction_t \<Rightarrow> node \<Rightarrow> 'r sched_state \<Rightarrow> 'r sched_state option"
  where
  "MakeAvailable k depth dir n st =
     (let lower = map (\<lambda>inp. if inp = n then Some False
                             else criticality_lessthan depth (graph st) dir inp n) (avlist st)
      in
      if None \<in> set lower then None
      else if n \<in> set (avlist st) then Some st
      else
        let pos = length (takeWhile (\<lambda>r. r \<noteq> Some True) lower)
        in Some (st\<lparr>graph := set_cycle_gate k dir n (graph st),
                    avlist := take pos (avlist st) @ n # drop pos (avlist st)\<rparr>))"

definition schedulable :: "scheduling_direction_t \<Rightarrow> node \<Rightarrow> 'r sched_state \<Rightarrow> bool" where
  "schedulable dir m st =
     (if dir = forward_scheduling
      then (\<forall>a \<in> set (in_arcs (graph st) m). scheduled st (src a))
      else (\<forall>a \<in> set (out_arcs (graph st) m). scheduled st (tgt a)))"

fun make_all_available ::
  "constants \<Rightarrow> nat \<Rightarrow> scheduling_direction_t \<Rightarrow> node list \<Rightarrow> 'r sched_state
    \<Rightarrow> 'r sched_state option" where
  "make_all_available k depth dir [] st = Some st"
| "make_all_available k depth dir (m # ms) st =
     (if schedulable dir m st then
        (case MakeAvailable k depth dir m st of
           None \<Rightarrow> None
         | Some st' \<Rightarrow> make_all_available k depth dir ms st')
      else make_all_available k depth dir ms st)"

definition TakeAvailable ::
  "constants \<Rightarrow> nat \<Rightarrow> scheduling_direction_t \<Rightarrow> node \<Rightarrow> 'r sched_state \<Rightarrow> 'r sched_state option"
  where
  "TakeAvailable k depth dir n st =
     (let st1 = st\<lparr>scheduled := (scheduled st)(n := True),
                   avlist := removeAll n (avlist st)\<rparr>
      in if dir = forward_scheduling
         then make_all_available k depth dir (map tgt (out_arcs (graph st) n)) st1
         else make_all_available k depth dir (map src (in_arcs (graph st) n)) st1)"

definition AdvanceCurrCycle :: "scheduling_direction_t \<Rightarrow> size_t \<Rightarrow> size_t" where
  "AdvanceCurrCycle dir c = (if dir = forward_scheduling then c + 1 else c - 1)"

text \<open>The gates that bypass the resource manager: the two sentinels and four gate types.\<close>

definition bypasses_rm :: "Scheduler \<Rightarrow> node \<Rightarrow> bool" where
  "bypasses_rm g n =
     (n = node_s g \<or> n = node_t g
      \<or> gtype (instruction g n) = dummy_gate
      \<or> gtype (instruction g n) = classical_gate
      \<or> gtype (instruction g n) = wait_gate
      \<or> gtype (instruction g n) = remap_gate)"

definition immediately_schedulable ::
  "'r resource_manager_t \<Rightarrow> quantum_platform \<Rightarrow> scheduling_direction_t \<Rightarrow> 'r sched_state
    \<Rightarrow> node \<Rightarrow> bool" where
  "immediately_schedulable R platform dir st n =
     (let gp = instruction (graph st) n in
      if (dir = forward_scheduling \<and> cycle gp \<le> curr_cycle st)
         \<or> (dir = backward_scheduling \<and> curr_cycle st \<le> cycle gp)
      then
        (if bypasses_rm (graph st) n then True
         else rm_available R (rm st) (curr_cycle st) gp platform)
      else False)"

definition SelectAvailable ::
  "'r resource_manager_t \<Rightarrow> quantum_platform \<Rightarrow> scheduling_direction_t \<Rightarrow> 'r sched_state
    \<Rightarrow> node option" where
  "SelectAvailable R platform dir st =
     find (immediately_schedulable R platform dir st) (avlist st)"

text \<open>The selected node is committed to the current cycle and taken from the list.\<close>

definition commit ::
  "'r resource_manager_t \<Rightarrow> quantum_platform \<Rightarrow> node \<Rightarrow> 'r sched_state \<Rightarrow> 'r sched_state" where
  "commit R platform n st =
     (let g = set_cycle_of n (curr_cycle st) (graph st)
      in st\<lparr>graph := g,
            rm := (if \<not> bypasses_rm g n
                   then rm_reserve R (rm st) (curr_cycle st) (instruction g n) platform
                   else rm st)\<rparr>)"

text \<open>One round of the loop \<open>while (!avlist.empty())\<close>, for a list that is not empty.\<close>

definition schedule_round ::
  "constants \<Rightarrow> 'r resource_manager_t \<Rightarrow> quantum_platform \<Rightarrow> scheduling_direction_t
    \<Rightarrow> nat \<Rightarrow> 'r sched_state \<Rightarrow> 'r sched_state option" where
  "schedule_round k R platform dir depth st =
     (case SelectAvailable R platform dir st of
        None \<Rightarrow> Some (st\<lparr>curr_cycle := AdvanceCurrCycle dir (curr_cycle st)\<rparr>)
      | Some n \<Rightarrow> TakeAvailable k depth dir n (commit R platform n st))"

text \<open>
  The loop need not end when the resource manager never grants a gate. The first
  argument bounds the number of rounds, and \<open>depth\<close> bounds the depth of the calls of
  \<open>criticality_lessthan\<close>: \<open>None\<close> means that the loop had not ended within the bounds.
\<close>

primrec schedule_loop ::
  "nat \<Rightarrow> constants \<Rightarrow> 'r resource_manager_t \<Rightarrow> quantum_platform \<Rightarrow> scheduling_direction_t
    \<Rightarrow> nat \<Rightarrow> 'r sched_state \<Rightarrow> 'r sched_state option" where
  "schedule_loop 0 k R platform dir depth st = (if avlist st = [] then Some st else None)"
| "schedule_loop (Suc fuel) k R platform dir depth st =
     (if avlist st = [] then Some st
      else
        (case schedule_round k R platform dir depth st of
           None \<Rightarrow> None
         | Some st' \<Rightarrow> schedule_loop fuel k R platform dir depth st'))"

text \<open>The state of the loop after a number of rounds, while the list is not empty.\<close>

primrec rounds ::
  "nat \<Rightarrow> constants \<Rightarrow> 'r resource_manager_t \<Rightarrow> quantum_platform \<Rightarrow> scheduling_direction_t
    \<Rightarrow> nat \<Rightarrow> 'r sched_state \<Rightarrow> 'r sched_state option" where
  "rounds 0 k R platform dir depth st = Some st"
| "rounds (Suc i) k R platform dir depth st =
     (if avlist st = [] then None
      else
        (case schedule_round k R platform dir depth st of
           None \<Rightarrow> None
         | Some st' \<Rightarrow> rounds i k R platform dir depth st'))"

text \<open>The state in which \<open>schedule\<close> enters its loop.\<close>

definition schedule_start ::
  "constants \<Rightarrow> scheduling_direction_t \<Rightarrow> 'r \<Rightarrow> Scheduler \<Rightarrow> 'r sched_state" where
  "schedule_start k dir r g =
     (let st0 = init_available k dir
                  \<lparr>graph = g, avlist = [], scheduled = (\<lambda>_. False), curr_cycle = 0, rm = r\<rparr>
      in st0\<lparr>graph := set_remaining dir (graph st0)\<rparr>)"

definition schedule ::
  "nat \<Rightarrow> constants \<Rightarrow> 'r resource_manager_t \<Rightarrow> quantum_platform \<Rightarrow> scheduling_direction_t
    \<Rightarrow> 'r \<Rightarrow> Scheduler \<Rightarrow> Scheduler option" where
  "schedule fuel k R platform dir r g =
     (case schedule_loop fuel k R platform dir fuel (schedule_start k dir r g) of
        None \<Rightarrow> None
      | Some st \<Rightarrow>
          (let g' = sort_by_cycle (graph st)
           in Some (if dir = backward_scheduling then readjust g' else g')))"

definition schedule_asap_rc ::
  "nat \<Rightarrow> constants \<Rightarrow> 'r resource_manager_t \<Rightarrow> quantum_platform \<Rightarrow> 'r \<Rightarrow> Scheduler
    \<Rightarrow> Scheduler option" where
  "schedule_asap_rc fuel k R platform r g = schedule fuel k R platform forward_scheduling r g"

definition schedule_alap_rc ::
  "nat \<Rightarrow> constants \<Rightarrow> 'r resource_manager_t \<Rightarrow> quantum_platform \<Rightarrow> 'r \<Rightarrow> Scheduler
    \<Rightarrow> Scheduler option" where
  "schedule_alap_rc fuel k R platform r g = schedule fuel k R platform backward_scheduling r g"


section \<open>The uniform scheduler\<close>

record uniform_state =
  ugraph :: Scheduler
  gates_per_cycle :: "size_t \<Rightarrow> node list"
  non_empty_bundle_count :: size_t
  gate_count :: size_t

text \<open>
  The test \<open>double(size) < avg_gates_per_non_empty_cycle\<close>, where the average is
  \<open>double(gate_count) / non_empty_bundle_count\<close> of the current counts: the comparison of
  the exact quotient, which the double comparison agrees with for counts below \<open>2^53\<close>.
\<close>

definition below_avg :: "nat \<Rightarrow> uniform_state \<Rightarrow> bool" where
  "below_avg sz u = (sz * unat (non_empty_bundle_count u) < unat (gate_count u))"

text \<open>Whether the candidate \<open>predgp\<close> may be moved forward to \<open>curr_cycle\<close>.\<close>

definition forward_predgp :: "Scheduler \<Rightarrow> size_t \<Rightarrow> size_t \<Rightarrow> node \<Rightarrow> bool" where
  "forward_predgp g cycle_count cur predgp =
     (let predgp_completion_cycle =
            cur + size_weight (duration (instruction g predgp)) (cycle_time g)
      in if predgp_completion_cycle > cycle_count + 1 then False
         else (\<forall>a \<in> set (out_arcs g predgp). \<not> predgp_completion_cycle > cycle_of g (tgt a)))"

text \<open>
  The scan of the bundle at \<open>pred_cycle\<close>: the state of the fold is \<open>min_remaining_cycle\<close>
  and the best candidate found so far.
\<close>

definition scan_bundle ::
  "constants \<Rightarrow> Scheduler \<Rightarrow> size_t \<Rightarrow> size_t \<Rightarrow> node list \<Rightarrow> size_t \<times> node option" where
  "scan_bundle k g cycle_count cur bundle =
     fold (\<lambda>predgp acc.
             if forward_predgp g cycle_count cur predgp \<and> remaining g predgp < fst acc
             then (remaining g predgp, Some predgp) else acc)
       bundle (MAX_CYCLE k, None)"

definition move_gate :: "node \<Rightarrow> size_t \<Rightarrow> size_t \<Rightarrow> uniform_state \<Rightarrow> uniform_state" where
  "move_gate best_predgp pred cur u =
     (let gpc1 = (gates_per_cycle u)(pred := removeAll best_predgp (gates_per_cycle u pred));
          ne1 = (if gpc1 pred = [] then non_empty_bundle_count u - 1
                 else non_empty_bundle_count u);
          ne2 = (if gpc1 cur = [] then ne1 + 1 else ne1)
      in u\<lparr>ugraph := set_cycle_of best_predgp cur (ugraph u),
            gates_per_cycle := gpc1(cur := gpc1 cur @ [best_predgp]),
            non_empty_bundle_count := ne2\<rparr>)"

text \<open>
  The while loop that fills the bundle at \<open>curr_cycle\<close>. \<open>pred_cycle\<close> is a \<open>long\<close> that
  starts at \<open>curr_cycle - 1\<close> and only decreases, so \<open>pred_cycle < curr_cycle\<close> holds in
  every round; the guard states it to make the recursion well-founded on all arguments.
\<close>

function fill_bundle ::
  "constants \<Rightarrow> size_t \<Rightarrow> size_t \<Rightarrow> int \<Rightarrow> uniform_state \<Rightarrow> uniform_state" where
  "fill_bundle k cycle_count cur pred_cycle u =
     (if below_avg (length (gates_per_cycle u cur)) u \<and> 1 \<le> pred_cycle
         \<and> pred_cycle < uint cur
      then
        (case snd (scan_bundle k (ugraph u) cycle_count cur
                     (gates_per_cycle u (word_of_int pred_cycle))) of
           Some best_predgp \<Rightarrow>
             (if non_empty_bundle_count
                   (move_gate best_predgp (word_of_int pred_cycle) cur u) = 0
              then move_gate best_predgp (word_of_int pred_cycle) cur u
              else fill_bundle k cycle_count cur pred_cycle
                     (move_gate best_predgp (word_of_int pred_cycle) cur u))
         | None \<Rightarrow> fill_bundle k cycle_count cur (pred_cycle - 1) u)
      else u)"
  by pat_completeness auto
termination
proof (relation "measures [\<lambda>(k, cycle_count, cur, pred_cycle, u). nat pred_cycle,
                           \<lambda>(k, cycle_count, cur, pred_cycle, u).
                              length (gates_per_cycle u (word_of_int pred_cycle))]",
       goal_cases)
  case 1
  show ?case by simp
next
  case (2 k cycle_count cur pred_cycle u)
  then show ?case by simp
next
  case (3 k cycle_count cur pred_cycle u best)
  have found: "snd (fold (\<lambda>p acc. if P p acc then (f p, Some p) else acc) xs (m, b)) = Some x
      \<Longrightarrow> b = None \<Longrightarrow> x \<in> set xs"
    for P :: "node \<Rightarrow> size_t \<times> node option \<Rightarrow> bool" and f xs m b x
  proof (induction xs arbitrary: m b rule: rev_induct)
    case Nil
    then show ?case by simp
  next
    case (snoc y ys)
    then show ?case by (auto split: if_splits)
  qed
  have mem: "best \<in> set (gates_per_cycle u (word_of_int pred_cycle))"
    using 3(2) found unfolding scan_bundle_def by fast
  have neq: "(word_of_int pred_cycle :: size_t) \<noteq> cur"
  proof
    assume "(word_of_int pred_cycle :: size_t) = cur"
    then have "uint (word_of_int pred_cycle :: size_t) = uint cur" by simp
    moreover have "uint (word_of_int pred_cycle :: size_t) = pred_cycle"
    proof -
      have "uint cur < 2 ^ 64" using uint_bounded [of cur] by simp
      then show ?thesis using 3(1) by (simp add: uint_word_of_int take_bit_int_eq_self)
    qed
    ultimately show False using 3(1) by simp
  qed
  have "length (removeAll best (gates_per_cycle u (word_of_int pred_cycle)))
          < length (gates_per_cycle u (word_of_int pred_cycle))"
    using mem by (simp add: length_removeAll_less)
  then show ?case using neq by (simp add: move_gate_def Let_def)
qed

declare fill_bundle.simps [simp del]

text \<open>
  The loop \<open>for (curr_cycle = cycle_count; curr_cycle >= 1; curr_cycle--)\<close>; the argument
  of the recursion is the value of \<open>curr_cycle\<close>.
\<close>

fun uniform_loop :: "constants \<Rightarrow> size_t \<Rightarrow> nat \<Rightarrow> uniform_state \<Rightarrow> uniform_state" where
  "uniform_loop k cycle_count 0 u = u"
| "uniform_loop k cycle_count (Suc c) u =
     (if non_empty_bundle_count u = 0 then u
      else
        let cur = (of_nat (Suc c) :: size_t);
            u1 = fill_bundle k cycle_count cur (sint (cur - 1)) u;
            sz = length (gates_per_cycle u1 cur);
            u2 = u1\<lparr>gate_count := gate_count u1 - of_nat sz,
                    non_empty_bundle_count :=
                      (if sz \<noteq> 0 then non_empty_bundle_count u1 - 1
                       else non_empty_bundle_count u1)\<rparr>
        in uniform_loop k cycle_count c u2)"

text \<open>The counts of the bundles at the cycles \<open>1 .. cycle_count\<close>.\<close>

definition count_bundles :: "size_t \<Rightarrow> (size_t \<Rightarrow> node list) \<Rightarrow> size_t \<times> size_t" where
  "count_bundles cycle_count gpc =
     fold (\<lambda>c acc. (if length (gpc (of_nat c)) \<noteq> 0 then fst acc + 1 else fst acc,
                    snd acc + of_nat (length (gpc (of_nat c)))))
       [1 ..< Suc (unat cycle_count)] (0, 0)"

text \<open>
  When SINK is at cycle 0 after the ASAP pass, \<open>cycle_count\<close> wraps around to the largest
  \<open>size_t\<close> and the loops \<open>for (curr_cycle = 1; curr_cycle <= cycle_count; curr_cycle++)\<close>
  do not end: the result is \<open>None\<close>.
\<close>

definition schedule_alap_uniform :: "constants \<Rightarrow> Scheduler \<Rightarrow> Scheduler option" where
  "schedule_alap_uniform k g =
     (let g1 = set_cycle k forward_scheduling g;
          cycle_count = cycle_of g1 (node_t g1) - 1
      in if cycle_count = - 1 then None
         else
           let g2 = set_remaining forward_scheduling g1;
               gpc = (\<lambda>c. filter (\<lambda>gp. cycle_of g2 gp = c) (circp g2));
               counts = count_bundles cycle_count gpc;
               u = uniform_loop k cycle_count (unat cycle_count)
                     \<lparr>ugraph = g2, gates_per_cycle = gpc,
                      non_empty_bundle_count = fst counts, gate_count = snd counts\<rparr>
           in Some (sort_by_cycle (ugraph u)))"

section \<open>Entry points\<close>

record quantum_kernel =
  kernel_name :: string
  kernel_c :: "gate list"
  kernel_qubit_count :: nat
  kernel_creg_count :: nat
  cycles_valid :: bool

text \<open>
  A scheduler works on the gate objects and on the circuit vector of the kernel in
  place; \<open>store\<close> reads the kernel's circuit back from the scheduler. \<open>FATAL\<close> throws: the
  outcome is then \<open>Fatal\<close>, with the kernel as it is at the throw.
\<close>

datatype outcome = Returned | Fatal error

definition store :: "Scheduler \<Rightarrow> quantum_kernel \<Rightarrow> quantum_kernel" where
  "store g kern = kern\<lparr>kernel_c := map (instruction g) (circp g)\<rparr>"

definition schedule_kernel ::
  "constants \<Rightarrow> options \<Rightarrow> quantum_kernel \<Rightarrow> quantum_platform
    \<Rightarrow> (outcome \<times> quantum_kernel) option" where
  "schedule_kernel k opts kern platform =
     (let scheduler = opts ''scheduler'';
          scheduler_uniform = opts ''scheduler_uniform''
      in case init k opts (kernel_c kern) platform
                (kernel_qubit_count kern) (kernel_creg_count kern) of
           Inl e \<Rightarrow> Some (Fatal e, kern)
         | Inr sched0 \<Rightarrow>
             (let sched = (if opts ''print_dot_graphs'' = ''yes''
                           then get_dot k sched0 else sched0)
              in if scheduler_uniform = ''yes'' then
                   (case schedule_alap_uniform k sched of
                      None \<Rightarrow> None
                    | Some sched' \<Rightarrow>
                        Some (Returned, (store sched' kern)\<lparr>cycles_valid := True\<rparr>))
                 else if scheduler = ''ASAP'' then
                   Some (Returned, (store (schedule_asap k sched) kern)\<lparr>cycles_valid := True\<rparr>)
                 else if scheduler = ''ALAP'' then
                   Some (Returned, (store (schedule_alap k sched) kern)\<lparr>cycles_valid := True\<rparr>)
                 else Some (Fatal (UnsupportedScheduler scheduler), store sched kern)))"

text \<open>The loop over the kernels of a program stops at the first kernel that throws.\<close>

fun schedule_kernels ::
  "constants \<Rightarrow> options \<Rightarrow> quantum_platform \<Rightarrow> quantum_kernel list
    \<Rightarrow> (outcome \<times> quantum_kernel list) option" where
  "schedule_kernels k opts platform [] = Some (Returned, [])"
| "schedule_kernels k opts platform (kern # kerns) =
     (case schedule_kernel k opts kern platform of
        None \<Rightarrow> None
      | Some (Fatal e, kern') \<Rightarrow> Some (Fatal e, kern' # kerns)
      | Some (Returned, kern') \<Rightarrow>
          (case schedule_kernels k opts platform kerns of
             None \<Rightarrow> None
           | Some (out, kerns') \<Rightarrow> Some (out, kern' # kerns')))"

text \<open>\<open>schedule(programp, platform, passname)\<close>, the entry without resource constraints.\<close>

definition schedule_program ::
  "constants \<Rightarrow> options \<Rightarrow> quantum_platform \<Rightarrow> quantum_kernel list
    \<Rightarrow> (outcome \<times> quantum_kernel list) option" where
  "schedule_program k opts platform kerns =
     (if opts ''prescheduler'' = ''yes'' then schedule_kernels k opts platform kerns
      else Some (Returned, kerns))"

definition rcschedule_kernel ::
  "nat \<Rightarrow> constants \<Rightarrow> options \<Rightarrow> 'r resource_manager_t \<Rightarrow> quantum_kernel
    \<Rightarrow> quantum_platform \<Rightarrow> nat \<Rightarrow> nat \<Rightarrow> (outcome \<times> quantum_kernel) option" where
  "rcschedule_kernel fuel k opts R kern platform nqubits ncreg =
     (let schedopt = opts ''scheduler'' in
      if schedopt = ''ASAP'' then
        (case init k opts (kernel_c kern) platform nqubits ncreg of
           Inl e \<Rightarrow> Some (Fatal e, kern)
         | Inr sched \<Rightarrow>
             (case schedule_asap_rc fuel k R platform
                     (rm_new R platform forward_scheduling) sched of
                None \<Rightarrow> None
              | Some sched' \<Rightarrow> Some (Returned, store sched' kern)))
      else if schedopt = ''ALAP'' then
        (case init k opts (kernel_c kern) platform nqubits ncreg of
           Inl e \<Rightarrow> Some (Fatal e, kern)
         | Inr sched \<Rightarrow>
             (case schedule_alap_rc fuel k R platform
                     (rm_new R platform backward_scheduling) sched of
                None \<Rightarrow> None
              | Some sched' \<Rightarrow> Some (Returned, store sched' kern)))
      else Some (Fatal (UnsupportedScheduler schedopt), kern))"

text \<open>\<open>rcschedule(programp, platform, passname)\<close>: kernels with an empty circuit are skipped.\<close>

fun rcschedule ::
  "nat \<Rightarrow> constants \<Rightarrow> options \<Rightarrow> 'r resource_manager_t \<Rightarrow> quantum_platform
    \<Rightarrow> quantum_kernel list \<Rightarrow> (outcome \<times> quantum_kernel list) option" where
  "rcschedule fuel k opts R platform [] = Some (Returned, [])"
| "rcschedule fuel k opts R platform (kern # kerns) =
     (if kernel_c kern \<noteq> [] then
        (case rcschedule_kernel fuel k opts R kern platform
                (qubit_number platform) (kernel_creg_count kern) of
           None \<Rightarrow> None
         | Some (Fatal e, kern') \<Rightarrow> Some (Fatal e, kern' # kerns)
         | Some (Returned, kern') \<Rightarrow>
             (case rcschedule fuel k opts R platform kerns of
                None \<Rightarrow> None
              | Some (out, kerns') \<Rightarrow> Some (out, kern'\<lparr>cycles_valid := True\<rparr> # kerns')))
      else
        (case rcschedule fuel k opts R platform kerns of
           None \<Rightarrow> None
         | Some (out, kerns') \<Rightarrow> Some (out, kern # kerns')))"


section \<open>Predicates of the specification and example inputs\<close>

text \<open>\<open>only_arcs g g'\<close>: the graph \<open>g'\<close> is \<open>g\<close> with more arcs, and nothing else changed.\<close>

definition only_arcs :: "Scheduler \<Rightarrow> Scheduler \<Rightarrow> bool" where
  "only_arcs g g' = (\<exists>as. g' = g\<lparr>arcs := arcs g @ as\<rparr>)"

definition with_node :: "gate \<Rightarrow> Scheduler \<Rightarrow> Scheduler" where
  "with_node ins g = g\<lparr>nodes := Suc (nodes g), instruction := (instruction g)(nodes g := ins)\<rparr>"

text \<open>
  What \<open>rcschedule\<close> does to the validity flag of one kernel: set for a kernel with gates,
  and the kernel left as it was when its circuit is empty.
\<close>

definition rc_flag :: "quantum_kernel \<Rightarrow> quantum_kernel \<Rightarrow> bool" where
  "rc_flag kern kern' = (if kernel_c kern \<noteq> [] then cycles_valid kern' else kern' = kern)"

text \<open>
  Example inputs: sentinels of duration 1, a platform with cycle time 1 and three qubits,
  and a resource manager that allows one gate to start per cycle.
\<close>

definition ex_consts :: constants where
  "ex_consts =
     \<lparr>SOURCE = \<lparr>name = ''SOURCE'', gtype = dummy_gate, operands = [], creg_operands = [],
                duration = 1, cycle = 0\<rparr>,
      SINK = \<lparr>name = ''SINK'', gtype = dummy_gate, operands = [], creg_operands = [],
              duration = 1, cycle = 0\<rparr>,
      MAX_CYCLE = 2147483647, ALAP_SINK_CYCLE = 1073741823\<rparr>"

definition ex_gate :: "string \<Rightarrow> nat list \<Rightarrow> nat \<Rightarrow> gate" where
  "ex_gate nm qs d =
     \<lparr>name = nm, gtype = quantum_gate, operands = qs, creg_operands = [],
      duration = d, cycle = 0\<rparr>"

definition ex_platform :: quantum_platform where
  "ex_platform = \<lparr>platform_cycle_time = 1, qubit_number = 3\<rparr>"

definition ex_kernel :: "gate list \<Rightarrow> quantum_kernel" where
  "ex_kernel ckt =
     \<lparr>kernel_name = ''k'', kernel_c = ckt, kernel_qubit_count = 3,
      kernel_creg_count = 0, cycles_valid = False\<rparr>"

definition ex_options :: "string \<Rightarrow> string \<Rightarrow> string \<Rightarrow> options" where
  "ex_options sched uniform commute =
     (\<lambda>_. ''no'')(''scheduler'' := sched, ''scheduler_uniform'' := uniform,
                  ''scheduler_commute'' := commute)"

definition ex_rm :: "size_t list resource_manager_t" where
  "ex_rm =
     \<lparr>rm_new = (\<lambda>_ _. []),
      rm_available = (\<lambda>r c gp platform. c \<notin> set r),
      rm_reserve = (\<lambda>r c gp platform. c # r)\<rparr>"

text \<open>The graphs of the empty circuit and of the circuit with the single gate \<open>x q0\<close>.\<close>

definition ex_ckt1 :: "gate list" where
  "ex_ckt1 = [ex_gate ''x'' [0] 1]"

definition ex_graph0 :: "options \<Rightarrow> Scheduler" where
  "ex_graph0 opts = init_graph ex_consts opts [] ex_platform 3 0"

definition ex_graph1 :: "options \<Rightarrow> Scheduler" where
  "ex_graph1 opts = init_graph ex_consts opts ex_ckt1 ex_platform 3 0"


text \<open>The state in which the forward list scheduler enters its loop on the empty circuit.\<close>

definition ex_start :: "size_t list sched_state" where
  "ex_start = schedule_start ex_consts forward_scheduling []
                  (ex_graph0 (ex_options ''ASAP'' ''no'' ''no''))"


text \<open>
  \<open>cycles_only g g'\<close>: the scheduler \<open>g'\<close> differs from \<open>g\<close> at most in the cycle fields of the
  gates and in its table \<open>remaining\<close>.
\<close>

definition cycles_only :: "Scheduler \<Rightarrow> Scheduler \<Rightarrow> bool" where
  "cycles_only g g' =
     ((\<forall>n. (instruction g' n)\<lparr>cycle := 0\<rparr> = (instruction g n)\<lparr>cycle := 0\<rparr>)
      \<and> nodes g' = nodes g \<and> arcs g' = arcs g \<and> node_s g' = node_s g \<and> node_t g' = node_t g
      \<and> circp g' = circp g \<and> cycle_time g' = cycle_time g
      \<and> qubit_count g' = qubit_count g \<and> creg_count g' = creg_count g)"

text \<open>The cycle in which the gate of node \<open>n\<close> completes, as the uniform scheduler computes it.\<close>

definition completion :: "Scheduler \<Rightarrow> node \<Rightarrow> size_t" where
  "completion g n =
     cycle_of g n + size_weight (duration (instruction g n)) (cycle_time g)"

text \<open>
  The invariant of the loops of the uniform scheduler, relative to the scheduler \<open>g\<close> in
  which they start: only cycles change, the bundles hold gates of the circuit, and a
  gate that is no longer at its cycle in \<open>g\<close> is a gate of the circuit that completes by
  cycle \<open>cycle_count + 1\<close>.
\<close>

definition uniform_inv :: "Scheduler \<Rightarrow> size_t \<Rightarrow> uniform_state \<Rightarrow> bool" where
  "uniform_inv g cycle_count u =
     (cycles_only g (ugraph u)
      \<and> (\<forall>c. set (gates_per_cycle u c) \<subseteq> set (circp g))
      \<and> (\<forall>n. cycle_of (ugraph u) n = cycle_of g n
             \<or> (n \<in> set (circp g) \<and> completion (ugraph u) n \<le> cycle_count + 1)))"

text \<open>The graph of the circuit \<open>x q0; y q0; z q1\<close>.\<close>

definition ex_ckt3 :: "gate list" where
  "ex_ckt3 = [ex_gate ''x'' [0] 1, ex_gate ''y'' [0] 1, ex_gate ''z'' [1] 1]"

definition ex_graph3 :: "options \<Rightarrow> Scheduler" where
  "ex_graph3 opts = init_graph ex_consts opts ex_ckt3 ex_platform 3 0"


text \<open>
  The stages of \<open>criticality_lessthan\<close> for one node: its depending nodes, the largest
  \<open>remaining\<close> among them, the depending nodes that reach it, and the key that the first
  stages compare lexicographically; \<open>crit_deep\<close> is the last stage, the comparison of the
  most critical depending nodes.
\<close>

definition crit_deps :: "Scheduler \<Rightarrow> scheduling_direction_t \<Rightarrow> node \<Rightarrow> node list" where
  "crit_deps g dir n = get_depending_nodes g n dir []"

definition crit_dep :: "Scheduler \<Rightarrow> scheduling_direction_t \<Rightarrow> node \<Rightarrow> size_t" where
  "crit_dep g dir n = remaining g (last (sort_key (remaining g) (crit_deps g dir n)))"

definition crit_top :: "Scheduler \<Rightarrow> scheduling_direction_t \<Rightarrow> node \<Rightarrow> node list" where
  "crit_top g dir n =
     filter (\<lambda>m. \<not> remaining g m < crit_dep g dir n) (sort_key (remaining g) (crit_deps g dir n))"

definition crit_key :: "Scheduler \<Rightarrow> scheduling_direction_t \<Rightarrow> node \<Rightarrow> nat \<times> nat \<times> nat \<times> nat" where
  "crit_key g dir n =
     (unat (remaining g n),
      if crit_deps g dir n = [] then (0, 0, 0)
      else (1, unat (crit_dep g dir n), length (crit_top g dir n)))"

definition crit_deep ::
  "nat \<Rightarrow> Scheduler \<Rightarrow> scheduling_direction_t \<Rightarrow> node \<Rightarrow> node \<Rightarrow> bool option" where
  "crit_deep depth g dir n1 n2 =
     (case list_sort (criticality_lessthan depth g dir) (crit_top g dir n1) of
        None \<Rightarrow> None
      | Some cl1 \<Rightarrow>
          (case list_sort (criticality_lessthan depth g dir) (crit_top g dir n2) of
             None \<Rightarrow> None
           | Some cl2 \<Rightarrow> criticality_lessthan depth g dir (last cl1) (last cl2)))"


text \<open>The arcs as a relation; a rank of the nodes that decreases along the direction.\<close>

definition arc_rel :: "Scheduler \<Rightarrow> (node \<times> node) set" where
  "arc_rel g = set (map (\<lambda>a. (src a, tgt a)) (arcs g))"

definition dag_rank :: "Scheduler \<Rightarrow> scheduling_direction_t \<Rightarrow> node \<Rightarrow> nat" where
  "dag_rank g dir n =
     (if dir = forward_scheduling then card {z. (n, z) \<in> (arc_rel g)\<^sup>+}
      else card {z. (n, z) \<in> ((arc_rel g)\<inverse>)\<^sup>+})"



text \<open>
  The ceiling of \<open>duration / cycle_time\<close> in exact integer arithmetic, by the formula that
  \<open>get_dot\<close> uses for the durations it prints.
\<close>

definition exact_ceiling :: "nat \<Rightarrow> nat \<Rightarrow> nat" where
  "exact_ceiling dur ct = (dur + ct - 1) div ct"

text \<open>
  A platform with a cycle time of \<open>2\<^sup>2\<^sup>4\<close>, and the circuit \<open>a q0; b q1; c q1; d q1\<close> in which
  \<open>a\<close> lasts one time unit longer than a cycle.
\<close>

definition ex_long :: nat where
  "ex_long = 16777216"

definition ex_platform_long :: quantum_platform where
  "ex_platform_long = \<lparr>platform_cycle_time = ex_long, qubit_number = 3\<rparr>"

definition ex_ckt4 :: "gate list" where
  "ex_ckt4 = [ex_gate ''a'' [0] (Suc ex_long), ex_gate ''b'' [1] 1, ex_gate ''c'' [1] 1,
              ex_gate ''d'' [1] 1]"

definition ex_graph4 :: Scheduler where
  "ex_graph4 =
     init_graph ex_consts (ex_options ''ASAP'' ''yes'' ''no'') ex_ckt4 ex_platform_long 3 0"

section \<open>Evaluation of the examples\<close>

lemma arc_weight_1_1: "arc_weight (Suc 0) (Suc 0) = 1"
  by (simp add: arc_weight_def ceil_quot_def float_of_def ceil_fl_def round_even_def bitlen.simps
        Let_def)

lemmas init_eval = init_graph_def add_gate_def stripname_def write_deps_def write_update_def
  add_deps_def add_dep_def generic_step_def cnot_deps_def cnot_update_def cz_deps_def
  cz_update_def write_deps_creg_def write_update_creg_def Let_def

lemmas ex_defs = ex_consts_def ex_options_def ex_gate_def ex_platform_def ex_kernel_def ex_rm_def

lemma ex_graph1_eq:
  "ex_graph1 opts =
     \<lparr>nodes = 3,
      arcs = [\<lparr>src = 0, tgt = 1, weight = 1, cause = 0, depType = WAW\<rparr>,
              \<lparr>src = 1, tgt = 2, weight = 1, cause = 0, depType = WAW\<rparr>,
              \<lparr>src = 0, tgt = 2, weight = 1, cause = 1, depType = WAW\<rparr>,
              \<lparr>src = 0, tgt = 2, weight = 1, cause = 2, depType = WAW\<rparr>],
      instruction = (\<lambda>_. SOURCE ex_consts)(1 := hd ex_ckt1, 2 := SINK ex_consts),
      node_s = 0, node_t = 2, circp = [1], cycle_time = 1, qubit_count = 3, creg_count = 0,
      remaining = (\<lambda>_. 0)\<rparr>"
  by (simp add: ex_graph1_def ex_ckt1_def init_eval ex_defs arc_weight_1_1 upt_rec
        eval_nat_numeral)

lemma ex_graph0_eq:
  "ex_graph0 opts =
     \<lparr>nodes = 2,
      arcs = [\<lparr>src = 0, tgt = 1, weight = 1, cause = 0, depType = WAW\<rparr>,
              \<lparr>src = 0, tgt = 1, weight = 1, cause = 1, depType = WAW\<rparr>,
              \<lparr>src = 0, tgt = 1, weight = 1, cause = 2, depType = WAW\<rparr>],
      instruction = (\<lambda>_. SOURCE ex_consts)(1 := SINK ex_consts),
      node_s = 0, node_t = 1, circp = [], cycle_time = 1, qubit_count = 3, creg_count = 0,
      remaining = (\<lambda>_. 0)\<rparr>"
  by (simp add: ex_graph0_def init_eval ex_defs arc_weight_1_1 upt_rec eval_nat_numeral)

section \<open>Graph construction changes the arcs only\<close>

lemma only_arcs_refl [simp]: "only_arcs g g"
  unfolding only_arcs_def by (rule exI [of _ "[]"]) simp

lemma only_arcs_trans: "only_arcs g g' \<Longrightarrow> only_arcs g' g'' \<Longrightarrow> only_arcs g g''"
  unfolding only_arcs_def by (elim exE, rule_tac x = "as @ asa" in exI) simp

lemma only_arcs_fold:
  "(\<And>x h. only_arcs g h \<Longrightarrow> only_arcs g (f x h)) \<Longrightarrow> only_arcs g h \<Longrightarrow> only_arcs g (fold f xs h)"
  by (induction xs arbitrary: h) auto

lemma only_arcs_add_dep: "only_arcs g h \<Longrightarrow> only_arcs g (add_dep h u v dt opnd)"
  by (erule only_arcs_trans) (auto simp: only_arcs_def add_dep_def)

lemma only_arcs_add_deps: "only_arcs g h \<Longrightarrow> only_arcs g (add_deps h us v dt opnd)"
  unfolding add_deps_def by (rule only_arcs_fold) (auto intro: only_arcs_add_dep)

lemma only_arcs_write_deps: "only_arcs g h \<Longrightarrow> only_arcs g (write_deps l c opnd h)"
  unfolding write_deps_def by (intro only_arcs_add_dep only_arcs_add_deps)

lemma only_arcs_write_deps_creg: "only_arcs g h \<Longrightarrow> only_arcs g (write_deps_creg l c opnd h)"
  unfolding write_deps_creg_def by (intro only_arcs_add_dep only_arcs_add_deps)

lemma only_arcs_cnot_deps: "only_arcs g h \<Longrightarrow> only_arcs g (cnot_deps opts l c p h)"
  unfolding cnot_deps_def Let_def by (auto intro!: only_arcs_add_dep only_arcs_add_deps)

lemma only_arcs_cz_deps: "only_arcs g h \<Longrightarrow> only_arcs g (cz_deps opts l c opnd h)"
  unfolding cz_deps_def Let_def by (auto intro!: only_arcs_add_dep only_arcs_add_deps)

lemma only_arcs_generic:
  "only_arcs g (fst p) \<Longrightarrow> only_arcs g (fst (fold (generic_step c) xs p))"
proof (induction xs arbitrary: p)
  case Nil
  then show ?case by simp
next
  case (Cons x xs)
  have "only_arcs g (fst (generic_step c x p))"
    using Cons.prems by (simp add: generic_step_def only_arcs_write_deps)
  then show ?case using Cons.IH by simp
qed

lemma only_arcs_add_gate: "only_arcs (with_node ins (fst p)) (fst (add_gate opts ins p))"
  unfolding add_gate_def Let_def with_node_def
  by (auto intro!: only_arcs_fold only_arcs_write_deps only_arcs_write_deps_creg
        only_arcs_cnot_deps only_arcs_cz_deps only_arcs_generic)

lemma only_arcs_fields:
  "only_arcs g g' \<Longrightarrow> nodes g' = nodes g \<and> instruction g' = instruction g \<and> circp g' = circp g
     \<and> node_s g' = node_s g \<and> node_t g' = node_t g \<and> cycle_time g' = cycle_time g
     \<and> qubit_count g' = qubit_count g \<and> creg_count g' = creg_count g \<and> remaining g' = remaining g"
  unfolding only_arcs_def by auto

lemma add_gate_fields:
  "nodes (fst (add_gate opts ins p)) = Suc (nodes (fst p))
   \<and> instruction (fst (add_gate opts ins p)) = (instruction (fst p))(nodes (fst p) := ins)
   \<and> circp (fst (add_gate opts ins p)) = circp (fst p)
   \<and> node_s (fst (add_gate opts ins p)) = node_s (fst p)
   \<and> cycle_time (fst (add_gate opts ins p)) = cycle_time (fst p)
   \<and> qubit_count (fst (add_gate opts ins p)) = qubit_count (fst p)
   \<and> creg_count (fst (add_gate opts ins p)) = creg_count (fst p)"
  using only_arcs_fields [OF only_arcs_add_gate [of ins p opts]] by (simp add: with_node_def)

lemma fold_add_gate_nodes:
  "nodes (fst (fold (add_gate opts) ckt p)) = nodes (fst p) + length ckt"
proof (induction ckt arbitrary: p)
  case Nil
  then show ?case by simp
next
  case (Cons ins ckt)
  have "nodes (fst (add_gate opts ins p)) = Suc (nodes (fst p))"
    using add_gate_fields by simp
  then show ?case using Cons.IH [of "add_gate opts ins p"] by simp
qed

lemma fold_add_gate_instruction:
  "map (instruction (fst (fold (add_gate opts) ckt p))) [nodes (fst p) ..< nodes (fst p) + length ckt] = ckt
   \<and> (\<forall>n < nodes (fst p). instruction (fst (fold (add_gate opts) ckt p)) n = instruction (fst p) n)
   \<and> circp (fst (fold (add_gate opts) ckt p)) = circp (fst p)
   \<and> node_s (fst (fold (add_gate opts) ckt p)) = node_s (fst p)
   \<and> cycle_time (fst (fold (add_gate opts) ckt p)) = cycle_time (fst p)
   \<and> qubit_count (fst (fold (add_gate opts) ckt p)) = qubit_count (fst p)
   \<and> creg_count (fst (fold (add_gate opts) ckt p)) = creg_count (fst p)"
proof (induction ckt arbitrary: p)
  case Nil
  then show ?case by simp
next
  case (Cons ins ckt)
  let ?p = "add_gate opts ins p"
  note f = add_gate_fields [of opts ins p]
  have n: "nodes (fst ?p) = Suc (nodes (fst p))" using f by simp
  have i: "instruction (fst ?p) = (instruction (fst p))(nodes (fst p) := ins)"
    using f by simp
  note IH = Cons.IH [of ?p]
  have "[nodes (fst p) ..< nodes (fst p) + length (ins # ckt)]
        = nodes (fst p) # [nodes (fst ?p) ..< nodes (fst ?p) + length ckt]"
    by (simp add: n upt_rec)
  moreover have "instruction (fst (fold (add_gate opts) ckt ?p)) (nodes (fst p)) = ins"
    using IH n i by simp
  ultimately show ?case using IH n i f by simp
qed

lemma init_graph_fields:
  "nodes (init_graph k opts ckt platform qc cc) = length ckt + 2
   \<and> node_s (init_graph k opts ckt platform qc cc) = 0
   \<and> node_t (init_graph k opts ckt platform qc cc) = Suc (length ckt)
   \<and> circp (init_graph k opts ckt platform qc cc) = [1 ..< Suc (length ckt)]
   \<and> map (instruction (init_graph k opts ckt platform qc cc)) [1 ..< Suc (length ckt)] = ckt
   \<and> instruction (init_graph k opts ckt platform qc cc) 0 = SOURCE k
   \<and> instruction (init_graph k opts ckt platform qc cc) (Suc (length ckt)) = SINK k
   \<and> cycle_time (init_graph k opts ckt platform qc cc) = platform_cycle_time platform"
proof -
  define g0 where "g0 = \<lparr>nodes = 1, arcs = [], instruction = (\<lambda>_. SOURCE k),
                node_s = 0, node_t = 0,
                circp = [1 ..< Suc (length ckt)],
                cycle_time = platform_cycle_time platform,
                qubit_count = qc, creg_count = cc, remaining = (\<lambda>_. 0)\<rparr>"
  define l0 where "l0 = \<lparr>LastWriter = (\<lambda>_. 0::nat), LastReaders = (\<lambda>_. []), LastDs = (\<lambda>_. [])\<rparr>"
  define p where "p = fold (add_gate opts) ckt (g0, l0)"
  define g2 where "g2 = (fst p)\<lparr>nodes := Suc (nodes (fst p)),
      instruction := (instruction (fst p))(nodes (fst p) := SINK k), node_t := nodes (fst p)\<rparr>"
  have eq: "init_graph k opts ckt platform qc cc = fold (write_deps (snd p) (nodes (fst p))) [0 ..< qc + cc] g2"
    unfolding init_graph_def Let_def g0_def l0_def p_def g2_def by simp
  have oa: "only_arcs g2 (init_graph k opts ckt platform qc cc)"
    unfolding eq by (rule only_arcs_fold) (auto intro: only_arcs_write_deps)
  note f = only_arcs_fields [OF oa]
  have n: "nodes (fst p) = Suc (length ckt)"
    unfolding p_def using fold_add_gate_nodes [of opts ckt "(g0, l0)"] by (simp add: g0_def)
  note a = fold_add_gate_instruction [of opts ckt "(g0, l0)", folded p_def]
  have m: "map (instruction (fst p)) [1 ..< Suc (length ckt)] = ckt"
    using a by (simp add: g0_def)
  have "map (instruction g2) [1 ..< Suc (length ckt)] = map (instruction (fst p)) [1 ..< Suc (length ckt)]"
    by (rule map_cong) (auto simp: g2_def n)
  then show ?thesis using f n a m by (simp add: g2_def g0_def)
qed

lemma dag_forward: "\<forall>a \<in> set (arcs g). src a < tgt a \<Longrightarrow> dag g"
proof -
  assume a: "\<forall>a \<in> set (arcs g). src a < tgt a"
  have "set (map (\<lambda>a. (src a, tgt a)) (arcs g)) \<subseteq> less_than" using a by auto
  moreover have "acyclic less_than" by (simp add: wf_acyclic)
  ultimately show ?thesis unfolding dag_def by (rule acyclic_subset [rotated])
qed


lemma init_no_loop:
  "\<forall>a \<in> set (arcs (init_graph k opts ckt platform qc cc)). src a < tgt a \<Longrightarrow>
   init k opts ckt platform qc cc = Inr (init_graph k opts ckt platform qc cc)"
  by (simp add: init_def dag_forward)


lemma ex_init1: "init ex_consts opts ex_ckt1 ex_platform 3 0 = Inr (ex_graph1 opts)"
  unfolding ex_graph1_def
  by (rule init_no_loop) (simp only: flip: ex_graph1_def, simp add: ex_graph1_eq)

lemma ex_init0: "init ex_consts opts [] ex_platform 3 0 = Inr (ex_graph0 opts)"
  unfolding ex_graph0_def
  by (rule init_no_loop) (simp only: flip: ex_graph0_def, simp add: ex_graph0_eq)

lemma ex_kernel_fields:
  "kernel_c (ex_kernel ckt) = ckt" "kernel_qubit_count (ex_kernel ckt) = 3"
  "kernel_creg_count (ex_kernel ckt) = 0" "qubit_number ex_platform = 3"
  "store g (ex_kernel ckt) = ex_kernel (map (instruction g) (circp g))"
  by (simp_all add: ex_kernel_def ex_platform_def store_def)

lemma ex_options_fields:
  "ex_options sc un co ''scheduler'' = sc" "ex_options sc un co ''scheduler_uniform'' = un"
  "ex_options sc un co ''scheduler_commute'' = co" "ex_options sc un co ''print_dot_graphs'' = ''no''"
  by (simp_all add: ex_options_def)

section \<open>C2: the weight of an arc\<close>

text \<open>
  C2. Every arc that \<open>add_dep\<close> adds carries the weight computed by \<open>arc_weight\<close> from the
  duration of the source gate and the cycle time. That weight is the ceiling of a
  binary32 quotient and not the exact integer ceiling: in the graph of the circuit
  \<open>a q0; b q0\<close> with cycle time 1 and \<open>a\<close> of duration 16777217, the arc from \<open>a\<close> to \<open>b\<close> has
  weight 16777216, one less than the exact integer ceiling.
\<close>

theorem arc_weight_not_exact_ceiling:
  "arcs (init_graph ex_consts (ex_options ''ASAP'' ''no'' ''no'')
           [ex_gate ''a'' [0] 16777217, ex_gate ''b'' [0] 1] ex_platform 1 0)
     = [\<lparr>src = 0, tgt = 1, weight = 1, cause = 0, depType = WAW\<rparr>,
        \<lparr>src = 1, tgt = 2, weight = 16777216, cause = 0, depType = WAW\<rparr>,
        \<lparr>src = 2, tgt = 3, weight = 1, cause = 0, depType = WAW\<rparr>]
   \<and> (16777217 + 1 - 1) div 1 = (16777217 :: nat)"
proof -
  have w: "arc_weight 16777217 (Suc 0) = 16777216"
    by (simp add: arc_weight_def ceil_quot_def float_of_def ceil_fl_def round_even_def
          bitlen.simps Let_def)
  show ?thesis
    by (simp add: init_eval ex_defs arc_weight_1_1 w)
qed

section \<open>Schedules of the examples\<close>

lemma ex_graph1_asap:
  "map_option (\<lambda>g. map (instruction g) (circp g))
     (Some (schedule_asap ex_consts (ex_graph1 opts))) = Some [(hd ex_ckt1)\<lparr>cycle := 1\<rparr>]"
  unfolding ex_graph1_eq ex_ckt1_def by code_simp


lemma ex_graph1_rc:
  "map_option (\<lambda>g. map (instruction g) (circp g))
     (schedule_asap_rc 6 ex_consts ex_rm ex_platform [] (ex_graph1 opts))
   = Some [(hd ex_ckt1)\<lparr>cycle := 1\<rparr>]"
  unfolding ex_graph1_eq ex_ckt1_def by code_simp

section \<open>C7: an unsupported value of the scheduler option\<close>









section \<open>C8: the validity flag of the kernel\<close>

text \<open>
  C8 (amended). When \<open>schedule_kernel\<close> returns, also on an empty circuit, the flag
  \<open>cycles_valid\<close> of the kernel is set. When \<open>rcschedule\<close> returns, the flag is set for every
  kernel whose circuit is not empty; a kernel with an empty circuit is skipped and is
  left as it was, flag included.
\<close>

theorem cycles_valid_after_scheduling:
  "(schedule_kernel k opts kern platform = Some (Returned, kern') \<longrightarrow> cycles_valid kern')
   \<and> (rcschedule fuel k opts R platform kerns = Some (Returned, kerns')
        \<longrightarrow> list_all2 rc_flag kerns kerns')"
proof -
  have rc: "rcschedule fuel k opts R platform kerns = Some (Returned, kerns') \<Longrightarrow>
     list_all2 rc_flag kerns kerns'"
  proof (induction kerns arbitrary: kerns')
    case Nil
    then show ?case by simp
  next
    case (Cons kern kerns)
    show ?case
    proof (cases "kernel_c kern = []")
      case True
      with Cons.prems obtain ks
        where ks: "rcschedule fuel k opts R platform kerns = Some (Returned, ks)"
          and eq: "kerns' = kern # ks"
        by (auto split: option.splits prod.splits)
      from Cons.IH [OF ks] show ?thesis using True eq by (simp add: rc_flag_def)
    next
      case False
      with Cons.prems obtain ks k1
        where ks: "rcschedule fuel k opts R platform kerns = Some (Returned, ks)"
          and eq: "kerns' = k1\<lparr>cycles_valid := True\<rparr> # ks"
        by (auto split: option.splits prod.splits outcome.splits)
      from Cons.IH [OF ks] show ?thesis using False eq by (simp add: rc_flag_def)
    qed
  qed
  have sk: "schedule_kernel k opts kern platform = Some (Returned, kern') \<Longrightarrow> cycles_valid kern'"
    by (auto simp: schedule_kernel_def Let_def split: sum.splits option.splits if_splits)
  show ?thesis using rc sk by blast
qed


lemma ex_graph0_asap:
  "circp (schedule_asap ex_consts (ex_graph0 opts)) = []"
  unfolding ex_graph0_eq by code_simp

lemma ex_schedule_kernel0:
  "schedule_kernel ex_consts (ex_options ''ASAP'' ''no'' ''no'') (ex_kernel []) ex_platform
     = Some (Returned, (ex_kernel [])\<lparr>cycles_valid := True\<rparr>)"
proof -
  let ?o = "ex_options ''ASAP'' ''no'' ''no''"
  have o: "?o ''scheduler_uniform'' = ''no''" "?o ''print_dot_graphs'' = ''no''"
    "?o ''scheduler'' = ''ASAP''"
    by (simp_all add: ex_options_def)
  have i: "init ex_consts ?o (kernel_c (ex_kernel [])) ex_platform
             (kernel_qubit_count (ex_kernel [])) (kernel_creg_count (ex_kernel []))
           = Inr (ex_graph0 ?o)"
    using ex_init0 [of ?o] by (simp add: ex_kernel_fields)
  show ?thesis
    unfolding schedule_kernel_def i o Let_def
    by (simp add: ex_graph0_asap store_def ex_kernel_def)
qed

lemma ex_rcschedule:
  "rcschedule 6 ex_consts (ex_options ''ASAP'' ''no'' ''no'') ex_rm ex_platform
     [ex_kernel [], ex_kernel ex_ckt1]
   = Some (Returned, [ex_kernel [],
        (ex_kernel [(hd ex_ckt1)\<lparr>cycle := 1\<rparr>])\<lparr>cycles_valid := True\<rparr>])"
proof -
  let ?o = "ex_options ''ASAP'' ''no'' ''no''"
  have o: "?o ''scheduler'' = ''ASAP''"
    by (simp_all add: ex_options_def)
  obtain G where G: "schedule_asap_rc 6 ex_consts ex_rm ex_platform [] (ex_graph1 ?o) = Some G"
    and c: "map (instruction G) (circp G) = [(hd ex_ckt1)\<lparr>cycle := 1\<rparr>]"
    using ex_graph1_rc [of ?o] by auto
  have r: "rcschedule_kernel 6 ex_consts ?o ex_rm (ex_kernel ex_ckt1) ex_platform
             3 0
           = Some (Returned, ex_kernel [(hd ex_ckt1)\<lparr>cycle := 1\<rparr>])"
    unfolding rcschedule_kernel_def o Let_def ex_kernel_fields ex_init1
    by (simp add: G [unfolded ex_rm_def] ex_rm_def c ex_kernel_fields)
  have ne: "ex_ckt1 \<noteq> []" by (simp add: ex_ckt1_def)
  show ?thesis by (simp add: ex_kernel_fields r ne)
qed

theorem cycles_valid_after_scheduling_witness:
  "schedule_kernel ex_consts (ex_options ''ASAP'' ''no'' ''no'') (ex_kernel []) ex_platform
     = Some (Returned, (ex_kernel [])\<lparr>cycles_valid := True\<rparr>)
   \<and> cycles_valid ((ex_kernel [])\<lparr>cycles_valid := True\<rparr>)
   \<and> rcschedule 6 ex_consts (ex_options ''ASAP'' ''no'' ''no'') ex_rm ex_platform
        [ex_kernel [], ex_kernel ex_ckt1]
      = Some (Returned, [ex_kernel [],
          (ex_kernel [(hd ex_ckt1)\<lparr>cycle := 1\<rparr>])\<lparr>cycles_valid := True\<rparr>])
   \<and> list_all2 rc_flag [ex_kernel [], ex_kernel ex_ckt1]
        [ex_kernel [],
         (ex_kernel [(hd ex_ckt1)\<lparr>cycle := 1\<rparr>])\<lparr>cycles_valid := True\<rparr>]"
  using cycles_valid_after_scheduling [where k = ex_consts
      and opts = "ex_options ''ASAP'' ''no'' ''no''" and kern = "ex_kernel []"
      and platform = ex_platform and kern' = "(ex_kernel [])\<lparr>cycles_valid := True\<rparr>"
      and fuel = 6 and R = ex_rm
      and kerns = "[ex_kernel [], ex_kernel ex_ckt1]"
      and kerns' = "[ex_kernel [],
          (ex_kernel [(hd ex_ckt1)\<lparr>cycle := 1\<rparr>])\<lparr>cycles_valid := True\<rparr>]"]
    ex_schedule_kernel0 ex_rcschedule
  by blast

theorem cycles_valid_counterexample:
  "rcschedule 6 ex_consts (ex_options ''ASAP'' ''no'' ''no'') ex_rm ex_platform [ex_kernel []]
     = Some (Returned, [ex_kernel []])
   \<and> \<not> cycles_valid (ex_kernel [])"
  by (simp add: ex_kernel_def)


section \<open>C9: the available list has no duplicates\<close>

lemma distinct_insert_at:
  assumes "distinct xs" and "n \<notin> set xs"
  shows "distinct (take pos xs @ n # drop pos xs)"
proof -
  have "distinct (take pos xs @ drop pos xs)" using assms(1) by simp
  then have parts: "distinct (take pos xs)" "distinct (drop pos xs)"
    "set (take pos xs) \<inter> set (drop pos xs) = {}"
    by (simp_all only: distinct_append)
  have "n \<notin> set (take pos xs)" "n \<notin> set (drop pos xs)"
    using assms(2) by (auto dest: in_set_takeD in_set_dropD)
  then show ?thesis using parts by auto
qed

lemma MakeAvailable_distinct:
  "MakeAvailable k depth dir n st = Some st' \<Longrightarrow> distinct (avlist st) \<Longrightarrow> distinct (avlist st')"
  by (auto simp: MakeAvailable_def Let_def distinct_insert_at simp del: distinct_append split: if_splits)

lemma make_all_available_distinct:
  "make_all_available k depth dir ms st = Some st' \<Longrightarrow> distinct (avlist st)
    \<Longrightarrow> distinct (avlist st')"
proof (induction ms arbitrary: st)
  case Nil
  then show ?case by simp
next
  case (Cons m ms)
  then show ?case
    by (auto split: if_splits option.splits dest: MakeAvailable_distinct)
qed

lemma TakeAvailable_distinct:
  "TakeAvailable k depth dir n st = Some st' \<Longrightarrow> distinct (avlist st) \<Longrightarrow> distinct (avlist st')"
  unfolding TakeAvailable_def Let_def
  by (auto split: if_splits dest!: make_all_available_distinct simp: distinct_removeAll)

lemma schedule_round_distinct:
  "schedule_round k R platform dir depth st = Some st' \<Longrightarrow> distinct (avlist st)
     \<Longrightarrow> distinct (avlist st')"
  unfolding schedule_round_def
  by (auto split: option.splits dest!: TakeAvailable_distinct simp: commit_def Let_def)

lemma rounds_distinct:
  "rounds i k R platform dir depth st = Some st' \<Longrightarrow> distinct (avlist st)
     \<Longrightarrow> distinct (avlist st')"
proof (induction i arbitrary: st)
  case 0
  then show ?case by simp
next
  case (Suc i)
  then show ?case
    by (auto split: if_splits option.splits dest: schedule_round_distinct)
qed

lemma schedule_start_distinct: "distinct (avlist (schedule_start k dir r g))"
  by (simp add: schedule_start_def init_available_def Let_def)


lemma ex_start_take:
  "map_option avlist (TakeAvailable ex_consts 6 forward_scheduling 0 (ex_start)) = Some [1]"
  unfolding ex_start_def ex_graph0_eq by code_simp

lemma ex_start_rounds:
  "map_option avlist (rounds 1 ex_consts ex_rm ex_platform forward_scheduling 6 (ex_start))
     = Some [1]"
  unfolding ex_start_def ex_graph0_eq by code_simp

lemma ex_start_make:
  "MakeAvailable ex_consts 6 forward_scheduling 0 (ex_start) = Some (ex_start)"
  by (simp add: MakeAvailable_def ex_start_def schedule_start_def init_available_def Let_def
        ex_graph0_eq)

text \<open>
  C9. The available list never holds a node twice. It starts as a list of one node;
  \<open>MakeAvailable\<close> leaves the state as it is when the node is already in the list, and
  keeps a list without duplicates free of duplicates; so does \<open>TakeAvailable\<close>; and after
  any number of rounds of the scheduling loop the elements of the list are distinct.
\<close>

theorem avlist_distinct:
  "distinct (avlist (schedule_start k dir r g))
   \<and> (MakeAvailable k depth dir n st = Some st1 \<longrightarrow>
        (n \<in> set (avlist st) \<longrightarrow> st1 = st)
        \<and> (distinct (avlist st) \<longrightarrow> distinct (avlist st1)))
   \<and> (TakeAvailable k depth dir n st = Some st2 \<longrightarrow> distinct (avlist st)
        \<longrightarrow> distinct (avlist st2))
   \<and> (rounds i k R platform dir depth (schedule_start k dir r g) = Some st3
        \<longrightarrow> distinct (avlist st3))"
proof -
  have "MakeAvailable k depth dir n st = Some st1 \<Longrightarrow> n \<in> set (avlist st) \<Longrightarrow> st1 = st"
    by (auto simp: MakeAvailable_def Let_def split: if_splits)
  then show ?thesis
    using schedule_start_distinct [of k dir r g] MakeAvailable_distinct [of k depth dir n st st1]
      TakeAvailable_distinct [of k depth dir n st st2]
      rounds_distinct [of i k R platform dir depth "schedule_start k dir r g" st3]
    by blast
qed

theorem avlist_distinct_witness:
  "distinct (avlist (ex_start))
   \<and> MakeAvailable ex_consts 6 forward_scheduling 0 (ex_start) = Some (ex_start)
   \<and> 0 \<in> set (avlist (ex_start))
   \<and> TakeAvailable ex_consts 6 forward_scheduling 0 (ex_start) \<noteq> None
   \<and> distinct (avlist (the (TakeAvailable ex_consts 6 forward_scheduling 0 (ex_start))))
   \<and> rounds 1 ex_consts ex_rm ex_platform forward_scheduling 6 (ex_start) \<noteq> None
   \<and> distinct (avlist (the
        (rounds 1 ex_consts ex_rm ex_platform forward_scheduling 6 (ex_start))))"
proof -
  obtain st2 where t: "TakeAvailable ex_consts 6 forward_scheduling 0 (ex_start) = Some st2"
    using ex_start_take by auto
  obtain st3 where r: "rounds 1 ex_consts ex_rm ex_platform forward_scheduling 6 (ex_start)
      = Some st3"
    using ex_start_rounds by auto
  have m: "0 \<in> set (avlist (ex_start))"
    by (simp add: ex_start_def schedule_start_def init_available_def Let_def ex_graph0_eq)
  show ?thesis
    using avlist_distinct [where k = ex_consts and dir = forward_scheduling and r = "[]"
        and g = "ex_graph0 (ex_options ''ASAP'' ''no'' ''no'')" and depth = 6 and n = 0
        and st = "ex_start" and ?st1.0 = "ex_start" and ?st2.0 = st2 and R = ex_rm
        and platform = ex_platform and i = 1 and ?st3.0 = st3]
      t r m ex_start_make
    by (simp add: ex_start_def)
qed


section \<open>Evaluation of the three-gate example\<close>

lemma ex_graph3_eq:
  "ex_graph3 opts =
     \<lparr>nodes = 5,
      arcs = [\<lparr>src = 0, tgt = 1, weight = 1, cause = 0, depType = WAW\<rparr>,
              \<lparr>src = 1, tgt = 2, weight = 1, cause = 0, depType = WAW\<rparr>,
              \<lparr>src = 0, tgt = 3, weight = 1, cause = 1, depType = WAW\<rparr>,
              \<lparr>src = 2, tgt = 4, weight = 1, cause = 0, depType = WAW\<rparr>,
              \<lparr>src = 3, tgt = 4, weight = 1, cause = 1, depType = WAW\<rparr>,
              \<lparr>src = 0, tgt = 4, weight = 1, cause = 2, depType = WAW\<rparr>],
      instruction = (\<lambda>_. SOURCE ex_consts)
        (1 := ex_ckt3 ! 0, 2 := ex_ckt3 ! 1, 3 := ex_ckt3 ! 2, 4 := SINK ex_consts),
      node_s = 0, node_t = 4, circp = [1, 2, 3], cycle_time = 1, qubit_count = 3,
      creg_count = 0, remaining = (\<lambda>_. 0)\<rparr>"
  by (simp add: ex_graph3_def ex_ckt3_def init_eval ex_defs arc_weight_1_1 upt_rec
        eval_nat_numeral)


lemma ex_graph3_asap:
  "map (cycle_of (set_cycle ex_consts forward_scheduling (ex_graph3 opts))) [0, 1, 2, 3, 4]
     = [0, 1, 2, 1, 3]"
  unfolding ex_graph3_eq ex_ckt3_def by code_simp




lemma ex_graph3_uniform:
  "map_option (\<lambda>g. (circp g, map (cycle_of g) [0, 1, 2, 3, 4]))
     (schedule_alap_uniform ex_consts (ex_graph3 opts)) = Some ([1, 2, 3], [0, 1, 2, 2, 3])"
  unfolding ex_graph3_eq ex_ckt3_def by code_simp

section \<open>The schedulers change cycles only\<close>

lemma cycles_only_refl [simp]: "cycles_only g g"
  by (simp add: cycles_only_def)

lemma cycles_only_trans: "cycles_only g g' \<Longrightarrow> cycles_only g' g'' \<Longrightarrow> cycles_only g g''"
  unfolding cycles_only_def by simp

lemma cycles_only_set_cycle_of:
  "cycles_only g h \<Longrightarrow> cycles_only g (set_cycle_of n c h)"
  by (erule cycles_only_trans) (simp add: cycles_only_def set_cycle_of_def)

lemma cycles_only_set_cycle_gate:
  "cycles_only g h \<Longrightarrow> cycles_only g (set_cycle_gate k dir n h)"
  unfolding set_cycle_gate_def by (simp add: cycles_only_set_cycle_of)

lemma cycles_only_fold:
  "(\<And>x h. cycles_only g h \<Longrightarrow> cycles_only g (f x h)) \<Longrightarrow> cycles_only g h
     \<Longrightarrow> cycles_only g (fold f xs h)"
  by (induction xs arbitrary: h) auto

lemma cycles_only_shift_cycle:
  "cycles_only g h \<Longrightarrow> cycles_only g (shift_cycle c n h)"
  unfolding shift_cycle_def by (rule cycles_only_set_cycle_of)

lemma cycles_only_readjust: "cycles_only g h \<Longrightarrow> cycles_only g (readjust h)"
  unfolding readjust_def Let_def
  by (intro cycles_only_shift_cycle cycles_only_fold)

lemma cycles_only_set_cycle: "cycles_only g h \<Longrightarrow> cycles_only g (set_cycle k dir h)"
  unfolding set_cycle_def
  by (auto intro!: cycles_only_readjust cycles_only_set_cycle_gate cycles_only_fold
        cycles_only_set_cycle_of)

lemma cycles_only_remaining:
  "cycles_only g h \<Longrightarrow> cycles_only g (h\<lparr>remaining := r\<rparr>)"
  by (simp add: cycles_only_def)

lemma cycles_only_set_remaining_gate:
  "cycles_only g h \<Longrightarrow> cycles_only g (set_remaining_gate dir n h)"
  unfolding set_remaining_gate_def by (simp add: cycles_only_remaining)

lemma cycles_only_set_remaining: "cycles_only g h \<Longrightarrow> cycles_only g (set_remaining dir h)"
  unfolding set_remaining_def Let_def
  by (auto intro!: cycles_only_set_remaining_gate cycles_only_fold cycles_only_remaining)

lemma cycles_only_move_gate:
  "cycles_only g (ugraph u) \<Longrightarrow> cycles_only g (ugraph (move_gate b p c u))"
  by (simp add: move_gate_def Let_def cycles_only_set_cycle_of)

lemma cycles_only_fill_bundle:
  "cycles_only g (ugraph u) \<Longrightarrow> cycles_only g (ugraph (fill_bundle k cc cur p u))"
proof (induction k cc cur p u rule: fill_bundle.induct)
  case (1 k cc cur p u)
  show ?case
    apply (subst fill_bundle.simps)
    using 1 by (auto split: option.splits intro: cycles_only_move_gate)
qed

lemma cycles_only_uniform_loop:
  "cycles_only g (ugraph u) \<Longrightarrow> cycles_only g (ugraph (uniform_loop k cc c u))"
proof (induction c arbitrary: u)
  case 0
  then show ?case by simp
next
  case (Suc c)
  show ?case
    by (auto simp: Let_def Suc.prems intro!: Suc.IH cycles_only_fill_bundle)
qed

lemma uniform_frame:
  assumes "schedule_alap_uniform k g = Some g'"
  shows "\<exists>h. cycles_only g h \<and> g' = sort_by_cycle h"
proof -
  from assms show ?thesis
    unfolding schedule_alap_uniform_def Let_def
    by (auto split: if_splits
          intro!: exI cycles_only_uniform_loop cycles_only_set_remaining cycles_only_set_cycle)
qed


lemma scan_bundle_found:
  "snd (scan_bundle k g cycle_count cur bundle) = Some p \<Longrightarrow>
     p \<in> set bundle \<and> forward_predgp g cycle_count cur p"
proof -
  have scan_step: "snd (fold (\<lambda>predgp acc.
                 if forward_predgp g cycle_count cur predgp \<and> remaining g predgp < fst acc
                 then (remaining g predgp, Some predgp) else acc) xs acc) = Some p
        \<Longrightarrow> snd acc = Some p \<or> (p \<in> set xs \<and> forward_predgp g cycle_count cur p)"
    for xs acc
    by (induction xs rule: rev_induct) (auto split: if_splits)
  from scan_step [of "bundle" "(MAX_CYCLE k, None)"] show "snd (scan_bundle k g cycle_count cur bundle) = Some p \<Longrightarrow>
     p \<in> set bundle \<and> forward_predgp g cycle_count cur p"
    by (simp add: scan_bundle_def)
qed

lemma forward_predgp_legal:
  "forward_predgp g cycle_count cur p \<Longrightarrow>
     cur + size_weight (duration (instruction g p)) (cycle_time g) \<le> cycle_count + 1
     \<and> (\<forall>a \<in> set (out_arcs g p).
           cur + size_weight (duration (instruction g p)) (cycle_time g)
             \<le> cycle_of g (tgt a))"
  by (auto simp: forward_predgp_def Let_def split: if_splits)

lemma cycles_only_duration:
  "cycles_only g h \<Longrightarrow> duration (instruction h n) = duration (instruction g n)
     \<and> cycle_time h = cycle_time g"
proof -
  assume a: "cycles_only g h"
  then have "(instruction h n)\<lparr>cycle := 0\<rparr> = (instruction g n)\<lparr>cycle := 0\<rparr>"
    by (simp add: cycles_only_def)
  then have "duration ((instruction h n)\<lparr>cycle := 0\<rparr>) = duration ((instruction g n)\<lparr>cycle := 0\<rparr>)"
    by simp
  then show ?thesis using a by (simp add: cycles_only_def)
qed

lemma uniform_inv_move_gate:
  assumes inv: "uniform_inv g cycle_count u"
    and found: "snd (scan_bundle k (ugraph u) cycle_count cur (gates_per_cycle u pred)) = Some b"
  shows "uniform_inv g cycle_count (move_gate b pred cur u)"
proof -
  from scan_bundle_found [OF found]
  have mem: "b \<in> set (gates_per_cycle u pred)"
    and legal: "forward_predgp (ugraph u) cycle_count cur b" by simp_all
  have bc: "b \<in> set (circp g)" using inv mem by (auto simp: uniform_inv_def)
  have co: "cycles_only g (ugraph (move_gate b pred cur u))"
    using inv by (simp add: uniform_inv_def cycles_only_move_gate)
  have sub: "set (gates_per_cycle (move_gate b pred cur u) c) \<subseteq> set (circp g)" for c
    using inv bc by (auto simp: uniform_inv_def move_gate_def Let_def)
  have g': "ugraph (move_gate b pred cur u) = set_cycle_of b cur (ugraph u)"
    by (simp add: move_gate_def Let_def)
  have compl: "completion (set_cycle_of b cur (ugraph u)) b \<le> cycle_count + 1"
    using forward_predgp_legal [OF legal]
    by (simp add: completion_def set_cycle_of_def cycle_of_def)
  have other: "n \<noteq> b \<Longrightarrow> cycle_of (set_cycle_of b cur (ugraph u)) n = cycle_of (ugraph u) n
      \<and> completion (set_cycle_of b cur (ugraph u)) n = completion (ugraph u) n" for n
    by (simp add: completion_def set_cycle_of_def cycle_of_def)
  have "cycle_of (set_cycle_of b cur (ugraph u)) n = cycle_of g n
           \<or> (n \<in> set (circp g) \<and> completion (set_cycle_of b cur (ugraph u)) n \<le> cycle_count + 1)" for n
  proof (cases "n = b")
    case True
    then show ?thesis using compl bc by simp
  next
    case False
    then show ?thesis using other [OF False] inv by (auto simp: uniform_inv_def)
  qed
  then show ?thesis using co sub unfolding uniform_inv_def g' [symmetric] by blast
qed

lemma uniform_inv_fill_bundle:
  "uniform_inv g cycle_count u \<Longrightarrow> uniform_inv g cycle_count (fill_bundle k cycle_count cur p u)"
proof (induction k cycle_count cur p u rule: fill_bundle.induct)
  case (1 k cc cur p u)
  show ?case
    apply (subst fill_bundle.simps)
    using 1 by (auto split: option.splits intro: uniform_inv_move_gate)
qed

lemma uniform_inv_counts:
  "uniform_inv g cycle_count u \<Longrightarrow>
     uniform_inv g cycle_count (u\<lparr>gate_count := gc, non_empty_bundle_count := ne\<rparr>)"
  by (simp add: uniform_inv_def)

lemma uniform_inv_uniform_loop:
  "uniform_inv g cycle_count u \<Longrightarrow> uniform_inv g cycle_count (uniform_loop k cycle_count c u)"
proof (induction c arbitrary: u)
  case 0
  then show ?case by simp
next
  case (Suc c)
  show ?case
    by (auto simp: Let_def Suc.prems intro!: Suc.IH uniform_inv_fill_bundle uniform_inv_counts)
qed

lemma uniform_result:
  assumes "schedule_alap_uniform k g = Some g'"
  shows "\<exists>u. g' = sort_by_cycle (ugraph u)
           \<and> uniform_inv (set_remaining forward_scheduling (set_cycle k forward_scheduling g))
               (cycle_of (set_cycle k forward_scheduling g) (node_t g) - 1) u"
proof -
  let ?g1 = "set_cycle k forward_scheduling g"
  let ?g2 = "set_remaining forward_scheduling ?g1"
  have t1: "node_t ?g1 = node_t g"
    using cycles_only_set_cycle [of g g k forward_scheduling] by (simp add: cycles_only_def)
  have c2: "circp ?g2 = circp g"
    using cycles_only_set_remaining [OF cycles_only_set_cycle [of g g k forward_scheduling]]
    by (simp add: cycles_only_def)
  have "uniform_inv ?g2 cc \<lparr>ugraph = ?g2,
      gates_per_cycle = (\<lambda>c. filter (\<lambda>gp. cycle_of ?g2 gp = c) (circp ?g2)),
      non_empty_bundle_count = ne, gate_count = gc\<rparr>" for cc ne gc
    by (auto simp: uniform_inv_def)
  then show ?thesis
    using assms unfolding schedule_alap_uniform_def Let_def t1
    by (auto split: if_splits intro!: exI uniform_inv_uniform_loop)
qed


lemma instruction_sort_by_cycle [simp]: "instruction (sort_by_cycle g) = instruction g"
  by (simp add: sort_by_cycle_def)

lemma cycle_of_sort_by_cycle [simp]: "cycle_of (sort_by_cycle g) = cycle_of g"
  by (simp add: cycle_of_def fun_eq_iff)

lemma instruction_set_remaining_gate [simp]:
  "instruction (set_remaining_gate dir n g) = instruction g"
  by (simp add: set_remaining_gate_def)

lemma instruction_set_remaining [simp]: "instruction (set_remaining dir g) = instruction g"
proof -
  have f: "instruction (fold (set_remaining_gate d) ns h) = instruction h" for d ns h
    by (induction ns arbitrary: h) simp_all
  show ?thesis by (simp add: set_remaining_def Let_def f)
qed

lemma cycles_only_sort_by_cycle:
  "cycles_only g h \<Longrightarrow>
     (\<forall>n. (instruction (sort_by_cycle h) n)\<lparr>cycle := 0\<rparr> = (instruction g n)\<lparr>cycle := 0\<rparr>)
     \<and> mset (circp (sort_by_cycle h)) = mset (circp g)
     \<and> arcs (sort_by_cycle h) = arcs g \<and> nodes (sort_by_cycle h) = nodes g
     \<and> node_s (sort_by_cycle h) = node_s g \<and> node_t (sort_by_cycle h) = node_t g
     \<and> cycle_time (sort_by_cycle h) = cycle_time g"
  by (simp add: cycles_only_def sort_by_cycle_def)

lemma gates_mset:
  assumes "\<forall>n. (instruction g' n)\<lparr>cycle := 0\<rparr> = (instruction g n)\<lparr>cycle := 0\<rparr>"
    and "mset ns' = mset ns"
  shows "mset (map (\<lambda>gp. gp\<lparr>cycle := 0\<rparr>) (map (instruction g') ns'))
           = mset (map (\<lambda>gp. gp\<lparr>cycle := 0\<rparr>) (map (instruction g) ns))"
proof -
  have "map (\<lambda>gp. gp\<lparr>cycle := 0\<rparr>) (map (instruction g') ns')
          = map (\<lambda>n. (instruction g n)\<lparr>cycle := 0\<rparr>) ns'"
    using assms(1) by simp
  moreover have "mset (map (\<lambda>n. (instruction g n)\<lparr>cycle := 0\<rparr>) ns')
          = mset (map (\<lambda>n. (instruction g n)\<lparr>cycle := 0\<rparr>) ns)"
    using assms(2) by (metis mset_map)
  moreover have "map (\<lambda>gp. gp\<lparr>cycle := 0\<rparr>) (map (instruction g) ns)
          = map (\<lambda>n. (instruction g n)\<lparr>cycle := 0\<rparr>) ns"
    by simp
  ultimately show ?thesis by (simp only:)
qed

lemma get_dot_gates:
  "mset (map (\<lambda>gp. gp\<lparr>cycle := 0\<rparr>) (map (instruction (get_dot k g)) (circp (get_dot k g))))
     = mset (map (\<lambda>gp. gp\<lparr>cycle := 0\<rparr>) (map (instruction g) (circp g)))"
proof -
  have co: "cycles_only g (set_cycle k forward_scheduling g)"
    by (simp add: cycles_only_set_cycle)
  note f = cycles_only_sort_by_cycle [OF co, folded get_dot_def]
  show ?thesis using f gates_mset [of "get_dot k g" g "circp (get_dot k g)" "circp g"] by blast
qed

lemma uniform_effect:
  assumes "schedule_alap_uniform k g = Some g'"
  shows "mset (circp g') = mset (circp g)
         \<and> (\<forall>n. (instruction g' n)\<lparr>cycle := 0\<rparr> = (instruction g n)\<lparr>cycle := 0\<rparr>)
         \<and> mset (map (\<lambda>gp. gp\<lparr>cycle := 0\<rparr>) (map (instruction g') (circp g')))
             = mset (map (\<lambda>gp. gp\<lparr>cycle := 0\<rparr>) (map (instruction g) (circp g)))
         \<and> arcs g' = arcs g \<and> nodes g' = nodes g \<and> node_s g' = node_s g
         \<and> node_t g' = node_t g"
proof -
  from uniform_frame [OF assms] obtain h where h: "cycles_only g h" and g': "g' = sort_by_cycle h"
    by blast
  note f = cycles_only_sort_by_cycle [OF h, folded g']
  show ?thesis using f gates_mset [of g' g "circp g'" "circp g"] by blast
qed

lemma init_graph_circuit:
  "map (instruction (init_graph k opts ckt platform qc cc))
     (circp (init_graph k opts ckt platform qc cc)) = ckt"
proof -
  note f = init_graph_fields [of k opts ckt platform qc cc]
  from f have c: "circp (init_graph k opts ckt platform qc cc) = [1 ..< Suc (length ckt)]"
    by (elim conjE)
  from f have m: "map (instruction (init_graph k opts ckt platform qc cc))
      [1 ..< Suc (length ckt)] = ckt"
    by (elim conjE)
  show ?thesis unfolding c by (rule m)
qed

lemma schedule_kernel_uniform_gates:
  assumes "schedule_kernel k opts kern platform = Some (Returned, kern')"
    and "opts ''scheduler_uniform'' = ''yes''"
  shows "mset (map (\<lambda>gp. gp\<lparr>cycle := 0\<rparr>) (kernel_c kern'))
           = mset (map (\<lambda>gp. gp\<lparr>cycle := 0\<rparr>) (kernel_c kern))"
proof -
  define g0 where "g0 = init_graph k opts (kernel_c kern) platform (kernel_qubit_count kern)
               (kernel_creg_count kern)"
  define g where "g = (if opts ''print_dot_graphs'' = ''yes'' then get_dot k g0 else g0)"
  have i: "init k opts (kernel_c kern) platform (kernel_qubit_count kern)
             (kernel_creg_count kern) = Inr g0"
    using assms(1) unfolding g0_def init_def schedule_kernel_def Let_def
    by (simp split: if_splits)
  from assms obtain g' where u: "schedule_alap_uniform k g = Some g'"
    and k': "kernel_c kern' = map (instruction g') (circp g')"
    unfolding schedule_kernel_def Let_def i g_def
    by (auto simp: store_def split: option.splits)
  have c0: "map (instruction g0) (circp g0) = kernel_c kern"
    unfolding g0_def by (rule init_graph_circuit)
  have "mset (map (\<lambda>gp. gp\<lparr>cycle := 0\<rparr>) (map (instruction g) (circp g)))
          = mset (map (\<lambda>gp. gp\<lparr>cycle := 0\<rparr>) (map (instruction g0) (circp g0)))"
    unfolding g_def using get_dot_gates [of k g0] by (cases "opts ''print_dot_graphs'' = ''yes''") simp_all
  moreover have "mset (map (\<lambda>gp. gp\<lparr>cycle := 0\<rparr>) (map (instruction g') (circp g')))
          = mset (map (\<lambda>gp. gp\<lparr>cycle := 0\<rparr>) (map (instruction g) (circp g)))"
    using uniform_effect [OF u] by (elim conjE)
  ultimately show ?thesis unfolding k' c0 by simp
qed

section \<open>C10: the uniform scheduler changes cycles and order only\<close>

text \<open>
  C10. When \<open>schedule_alap_uniform\<close> returns, the circuit is a permutation of the circuit
  before, every gate object is the gate it was up to its cycle field, so the circuit
  holds the same multiset of gates up to their cycles, and the graph is unchanged. The
  same holds for the circuit of a kernel that \<open>schedule_kernel\<close> schedules with
  \<open>scheduler_uniform\<close> set to yes.
\<close>

theorem uniform_changes_cycles_and_order_only:
  "(schedule_alap_uniform k g = Some g' \<longrightarrow>
      mset (circp g') = mset (circp g)
      \<and> (\<forall>n. (instruction g' n)\<lparr>cycle := 0\<rparr> = (instruction g n)\<lparr>cycle := 0\<rparr>)
      \<and> mset (map (\<lambda>gp. gp\<lparr>cycle := 0\<rparr>) (map (instruction g') (circp g')))
          = mset (map (\<lambda>gp. gp\<lparr>cycle := 0\<rparr>) (map (instruction g) (circp g)))
      \<and> arcs g' = arcs g \<and> nodes g' = nodes g \<and> node_s g' = node_s g
      \<and> node_t g' = node_t g)
   \<and> (schedule_kernel k opts kern platform = Some (Returned, kern')
        \<and> opts ''scheduler_uniform'' = ''yes'' \<longrightarrow>
      mset (map (\<lambda>gp. gp\<lparr>cycle := 0\<rparr>) (kernel_c kern'))
        = mset (map (\<lambda>gp. gp\<lparr>cycle := 0\<rparr>) (kernel_c kern)))"
  using uniform_effect [of k g g'] schedule_kernel_uniform_gates [of k opts kern platform kern']
  by blast

theorem uniform_changes_cycles_and_order_only_witness:
  "schedule_alap_uniform ex_consts (ex_graph3 (ex_options ''ASAP'' ''yes'' ''no'')) \<noteq> None
   \<and> mset (circp (the (schedule_alap_uniform ex_consts
                          (ex_graph3 (ex_options ''ASAP'' ''yes'' ''no'')))))
       = mset (circp (ex_graph3 (ex_options ''ASAP'' ''yes'' ''no'')))
   \<and> cycle_of (the (schedule_alap_uniform ex_consts
                       (ex_graph3 (ex_options ''ASAP'' ''yes'' ''no'')))) 3 = 2
   \<and> cycle_of (ex_graph3 (ex_options ''ASAP'' ''yes'' ''no'')) 3 = 0
   \<and> arcs (the (schedule_alap_uniform ex_consts
                   (ex_graph3 (ex_options ''ASAP'' ''yes'' ''no''))))
       = arcs (ex_graph3 (ex_options ''ASAP'' ''yes'' ''no''))"
proof -
  let ?g = "ex_graph3 (ex_options ''ASAP'' ''yes'' ''no'')"
  obtain G where G: "schedule_alap_uniform ex_consts ?g = Some G"
    and c: "cycle_of G 3 = 2"
    using ex_graph3_uniform [of "ex_options ''ASAP'' ''yes'' ''no''"] by auto
  have z: "cycle_of ?g 3 = 0"
    by (simp add: ex_graph3_eq cycle_of_def ex_ckt3_def ex_gate_def)
  show ?thesis
    using uniform_changes_cycles_and_order_only [where k = ex_consts and g = ?g and g' = G]
      G c z
    by simp
qed

section \<open>C5: the legality check of the uniform scheduler\<close>

text \<open>
  When \<open>schedule_alap_uniform\<close> returns on a scheduler whose SINK is not a gate of the
  circuit, the cycle of SINK is the cycle that the ASAP pass at its start gave it; every
  node is at its ASAP cycle or completes, by the weight that the scheduler computes, no
  later than the cycle of SINK; and a candidate that the scan of a bundle selects is a gate
  of that bundle whose completion cycle at \<open>curr_cycle\<close>, again by that weight, exceeds
  neither \<open>cycle_count + 1\<close> nor the cycle of a target of one of its out-arcs.
\<close>

lemma uniform_keeps_sink_cycle:
  assumes "schedule_alap_uniform k g = Some g'" and "node_t g \<notin> set (circp g)"
  shows "cycle_of g' (node_t g') = cycle_of (set_cycle k forward_scheduling g) (node_t g)
         \<and> (\<forall>n. cycle_of g' n = cycle_of (set_cycle k forward_scheduling g) n
                \<or> completion g' n \<le> cycle_of g' (node_t g'))
         \<and> (snd (scan_bundle k h cycle_count cur gps) = Some p \<longrightarrow>
               p \<in> set gps
               \<and> cur + size_weight (duration (instruction h p)) (cycle_time h)
                    \<le> cycle_count + 1
               \<and> (\<forall>a \<in> set (out_arcs h p).
                     cur + size_weight (duration (instruction h p)) (cycle_time h)
                       \<le> cycle_of h (tgt a)))"
proof -
  let ?g1 = "set_cycle k forward_scheduling g"
  let ?g2 = "set_remaining forward_scheduling ?g1"
  let ?cc = "cycle_of ?g1 (node_t g) - 1"
  from uniform_result [OF assms(1)] obtain u
    where g': "g' = sort_by_cycle (ugraph u)" and inv: "uniform_inv ?g2 ?cc u"
    by blast
  have co1: "cycles_only g ?g1" by (simp add: cycles_only_set_cycle)
  have co2: "cycles_only g ?g2" by (simp add: cycles_only_set_cycle cycles_only_set_remaining)
  have cou: "cycles_only ?g2 (ugraph u)" using inv by (simp add: uniform_inv_def)
  have c2: "circp ?g2 = circp g" and t2: "node_t ?g2 = node_t g"
    using co2 by (simp_all add: cycles_only_def)
  have tu: "node_t g' = node_t g"
    using cou t2 by (simp add: g' cycles_only_def sort_by_cycle_def)
  have cyc2: "cycle_of ?g2 n = cycle_of ?g1 n" for n by (simp add: cycle_of_def)
  have compl: "completion g' n = completion (ugraph u) n" for n
    by (simp add: g' completion_def cycle_of_def sort_by_cycle_def)
  have third: "cycle_of (ugraph u) n = cycle_of ?g1 n
      \<or> (n \<in> set (circp g) \<and> completion (ugraph u) n \<le> ?cc + 1)" for n
    using inv unfolding uniform_inv_def c2 cyc2 by blast
  have sink: "cycle_of g' (node_t g') = cycle_of ?g1 (node_t g)"
    using third [of "node_t g"] assms(2) by (simp add: g' tu [unfolded g'])
  have moved: "cycle_of g' n = cycle_of ?g1 n \<or> completion g' n \<le> cycle_of g' (node_t g')" for n
    using third [of n] unfolding sink compl by (auto simp: g')
  show ?thesis
    using sink moved scan_bundle_found [of k h cycle_count cur gps p] forward_predgp_legal
    by blast
qed

lemma uniform_keeps_sink_cycle_example:
  "schedule_alap_uniform ex_consts (ex_graph3 (ex_options ''ASAP'' ''yes'' ''no'')) \<noteq> None
   \<and> node_t (ex_graph3 (ex_options ''ASAP'' ''yes'' ''no''))
        \<notin> set (circp (ex_graph3 (ex_options ''ASAP'' ''yes'' ''no'')))
   \<and> cycle_of (the (schedule_alap_uniform ex_consts
                       (ex_graph3 (ex_options ''ASAP'' ''yes'' ''no'')))) 4 = 3
   \<and> cycle_of (set_cycle ex_consts forward_scheduling
                 (ex_graph3 (ex_options ''ASAP'' ''yes'' ''no''))) 4 = 3"
proof -
  let ?g = "ex_graph3 (ex_options ''ASAP'' ''yes'' ''no'')"
  obtain G where G: "schedule_alap_uniform ex_consts ?g = Some G"
    using ex_graph3_uniform [of "ex_options ''ASAP'' ''yes'' ''no''"] by auto
  have t: "node_t ?g \<notin> set (circp ?g)" and t4: "node_t ?g = 4"
    by (simp_all add: ex_graph3_eq)
  have a: "cycle_of (set_cycle ex_consts forward_scheduling ?g) 4 = 3"
    using ex_graph3_asap [of "ex_options ''ASAP'' ''yes'' ''no''"] by simp
  have tG: "node_t G = 4"
    using uniform_effect [OF G] t4 by simp
  show ?thesis
    using uniform_keeps_sink_cycle [OF G t] G t a t4 tG by simp
qed

text \<open>The graph and the schedules of the circuit with the long gate.\<close>

lemma arc_weight_long:
  "arc_weight (Suc 0) ex_long = 1" "arc_weight (Suc ex_long) ex_long = 1"
  by (simp_all add: ex_long_def arc_weight_def ceil_quot_def float_of_def ceil_fl_def
        round_even_def bitlen.simps Let_def)

lemma ex_graph4_eq:
  "ex_graph4 =
     \<lparr>nodes = 6,
      arcs = [\<lparr>src = 0, tgt = 1, weight = 1, cause = 0, depType = WAW\<rparr>,
              \<lparr>src = 0, tgt = 2, weight = 1, cause = 1, depType = WAW\<rparr>,
              \<lparr>src = 2, tgt = 3, weight = 1, cause = 1, depType = WAW\<rparr>,
              \<lparr>src = 3, tgt = 4, weight = 1, cause = 1, depType = WAW\<rparr>,
              \<lparr>src = 1, tgt = 5, weight = 1, cause = 0, depType = WAW\<rparr>,
              \<lparr>src = 4, tgt = 5, weight = 1, cause = 1, depType = WAW\<rparr>,
              \<lparr>src = 0, tgt = 5, weight = 1, cause = 2, depType = WAW\<rparr>],
      instruction = (\<lambda>_. SOURCE ex_consts)
        (1 := ex_ckt4 ! 0, 2 := ex_ckt4 ! 1, 3 := ex_ckt4 ! 2, 4 := ex_ckt4 ! 3,
         5 := SINK ex_consts),
      node_s = 0, node_t = 5, circp = [1, 2, 3, 4], cycle_time = ex_long, qubit_count = 3,
      creg_count = 0, remaining = (\<lambda>_. 0)\<rparr>"
  by (simp add: ex_graph4_def ex_ckt4_def ex_platform_long_def init_eval ex_defs arc_weight_long
        upt_rec eval_nat_numeral)

lemma ex_graph4_asap:
  "map (cycle_of (set_cycle ex_consts forward_scheduling ex_graph4)) [0, 1, 2, 3, 4, 5]
     = [0, 1, 1, 2, 3, 4]"
  unfolding ex_graph4_eq ex_ckt4_def by code_simp

lemma ex_graph4_uniform:
  "map_option (\<lambda>g. map (cycle_of g) [0, 1, 2, 3, 4, 5])
     (schedule_alap_uniform ex_consts ex_graph4) = Some [0, 3, 1, 2, 3, 4]"
  unfolding ex_graph4_eq ex_ckt4_def by code_simp

text \<open>
  C5. The uniform scheduler leaves SINK at its ASAP cycle, but the completion cycle that
  its legality check bounds is \<open>curr_cycle\<close> plus the ceiling of a binary32 quotient, not
  \<open>curr_cycle + ceil(duration/cycle_time)\<close>. In the circuit \<open>a q0; b q1; c q1; d q1\<close> with cycle
  time 16777216, \<open>a\<close> of duration 16777217 and the other gates of duration 1, the ASAP
  cycles of SOURCE, \<open>a\<close>, \<open>b\<close>, \<open>c\<close>, \<open>d\<close>, SINK are 0, 1, 1, 2, 3, 4, so that \<open>cycle_count + 1\<close> and
  the cycle of SINK are 4. The uniform scheduler moves \<open>a\<close> to cycle 3, computing 1 for
  its duration in cycles, while the exact ceiling of \<open>16777217 / 16777216\<close> is 2: the
  completion cycle \<open>3 + 2 = 5\<close> of the claim exceeds \<open>cycle_count + 1\<close> and the cycle of SINK,
  the only out-neighbour of \<open>a\<close>.
\<close>

theorem uniform_moves_gate_past_sink:
  "map (cycle_of (set_cycle ex_consts forward_scheduling ex_graph4)) [0, 1, 2, 3, 4, 5]
     = [0, 1, 1, 2, 3, 4]
   \<and> map_option (\<lambda>g. map (cycle_of g) [0, 1, 2, 3, 4, 5])
        (schedule_alap_uniform ex_consts ex_graph4) = Some [0, 3, 1, 2, 3, 4]
   \<and> map tgt (out_arcs ex_graph4 1) = [5]
   \<and> duration (instruction ex_graph4 1) = 16777217 \<and> cycle_time ex_graph4 = 16777216
   \<and> size_weight 16777217 16777216 = 1
   \<and> exact_ceiling 16777217 16777216 = 2"
proof -
  have "map tgt (out_arcs ex_graph4 1) = [5]"
    by (simp add: ex_graph4_eq out_arcs_def)
  moreover have "duration (instruction ex_graph4 1) = 16777217"
    and "cycle_time ex_graph4 = 16777216"
    by (simp_all add: ex_graph4_eq ex_ckt4_def ex_gate_def ex_long_def)
  moreover have "size_weight 16777217 16777216 = 1"
    by (simp add: size_weight_def ceil_quot_def float_of_def ceil_fl_def round_even_def
          bitlen.simps Let_def)
  moreover have "exact_ceiling 16777217 16777216 = 2"
    by (simp add: exact_ceiling_def)
  ultimately show ?thesis using ex_graph4_asap ex_graph4_uniform by simp
qed


section \<open>C6: the comparison of criticality\<close>

lemma crit_key_less:
  "crit_key g dir a < crit_key g dir b \<longleftrightarrow>
     remaining g a < remaining g b
     \<or> (remaining g a = remaining g b
        \<and> ((crit_deps g dir a = [] \<and> crit_deps g dir b \<noteq> [])
           \<or> (crit_deps g dir a \<noteq> [] \<and> crit_deps g dir b \<noteq> []
              \<and> (crit_dep g dir a < crit_dep g dir b
                 \<or> (crit_dep g dir a = crit_dep g dir b
                    \<and> length (crit_top g dir a) < length (crit_top g dir b))))))"
  by (simp add: crit_key_def less_prod_def word_less_nat_alt word_unat_eq_iff) auto

lemma if_chain:
  fixes r1 r2 :: "'a::linorder" and c1 c2 :: "'b::linorder" and n1 n2 :: nat
  shows
  "(if eq then F else if r1 < r2 then T else if r2 < r1 then F
    else if e2 then F else if e1 then T
    else if c1 < c2 then T else if c2 < c1 then F
    else if n1 < n2 then T else if n2 < n1 then F else X)
   = (if eq then F
      else if r1 < r2 \<or> (r1 = r2 \<and> ((e1 \<and> \<not> e2)
               \<or> (\<not> e1 \<and> \<not> e2 \<and> (c1 < c2 \<or> (c1 = c2 \<and> n1 < n2))))) then T
      else if r2 < r1 \<or> (r2 = r1 \<and> ((e2 \<and> \<not> e1)
               \<or> (\<not> e2 \<and> \<not> e1 \<and> (c2 < c1 \<or> (c2 = c1 \<and> n2 < n1))))) then F
      else if e1 then F else X)"
  by (cases eq; cases "r1 < r2"; cases "r2 < r1"; cases e1; cases e2; cases "c1 < c2";
      cases "c2 < c1"; cases "n1 < n2"; cases "n2 < n1"; simp; auto)

lemma criticality_lessthan_key:
  "criticality_lessthan (Suc depth) g dir n1 n2 =
     (if n1 = n2 then Some False
      else if crit_key g dir n1 < crit_key g dir n2 then Some True
      else if crit_key g dir n2 < crit_key g dir n1 then Some False
      else if crit_deps g dir n1 = [] then Some False
      else crit_deep depth g dir n1 n2)"
  unfolding crit_key_less criticality_lessthan.simps Let_def
    crit_deep_def crit_top_def crit_dep_def crit_deps_def
  by (rule if_chain)


lemma crit_key_eq_deps:
  "\<not> crit_key g dir a < crit_key g dir b \<Longrightarrow> \<not> crit_key g dir b < crit_key g dir a
     \<Longrightarrow> (crit_deps g dir a = []) = (crit_deps g dir b = [])"
  unfolding crit_key_less by auto

lemma crit_deep_Some:
  "crit_deep depth g dir a b = Some r \<longleftrightarrow>
     (\<exists>cl1 cl2. list_sort (criticality_lessthan depth g dir) (crit_top g dir a) = Some cl1
        \<and> list_sort (criticality_lessthan depth g dir) (crit_top g dir b) = Some cl2
        \<and> criticality_lessthan depth g dir (last cl1) (last cl2) = Some r)"
  by (auto simp: crit_deep_def split: option.splits)

text \<open>The three order properties, for every depth and whenever the comparisons return.\<close>

lemma criticality_order:
  "(criticality_lessthan d g dir a b = Some True \<longrightarrow>
      criticality_lessthan d g dir b a = Some False)
   \<and> (criticality_lessthan d g dir a b = Some True \<longrightarrow>
      criticality_lessthan d g dir b c = Some True \<longrightarrow>
      criticality_lessthan d g dir a c = Some True)
   \<and> (criticality_lessthan d g dir a b = Some False \<longrightarrow>
      criticality_lessthan d g dir b a = Some False \<longrightarrow>
      criticality_lessthan d g dir b c = Some False \<longrightarrow>
      criticality_lessthan d g dir c b = Some False \<longrightarrow>
      criticality_lessthan d g dir a c = Some False
      \<and> criticality_lessthan d g dir c a = Some False)"
proof (induction d arbitrary: a b c)
  case 0
  show ?case by simp
next
  case (Suc d)
  let ?lt = "criticality_lessthan (Suc d) g dir"
  let ?K = "crit_key g dir"
  have asym: "?lt a b = Some False" if "?lt b a = Some True" for a b
  proof (cases "?K b < ?K a")
    case True
    then show ?thesis using that by (auto simp: criticality_lessthan_key)
  next
    case False
    with that have ne: "b \<noteq> a" and nk: "\<not> ?K a < ?K b" and d: "crit_deps g dir b \<noteq> []"
      and deep: "crit_deep d g dir b a = Some True"
      by (auto simp: criticality_lessthan_key split: if_splits)
    from deep obtain cl1 cl2
      where s1: "list_sort (criticality_lessthan d g dir) (crit_top g dir b) = Some cl1"
        and s2: "list_sort (criticality_lessthan d g dir) (crit_top g dir a) = Some cl2"
        and l: "criticality_lessthan d g dir (last cl1) (last cl2) = Some True"
      unfolding crit_deep_Some by blast
    from Suc.IH [of "last cl1" "last cl2"] l
    have "criticality_lessthan d g dir (last cl2) (last cl1) = Some False" by blast
    then have "crit_deep d g dir a b = Some False"
      unfolding crit_deep_Some using s1 s2 by blast
    moreover have "crit_deps g dir a \<noteq> []" using crit_key_eq_deps [OF nk False] d by simp
    ultimately show ?thesis using ne nk False by (simp add: criticality_lessthan_key)
  qed
  have trans: "?lt a c = Some True" if ab: "?lt a b = Some True" and bc: "?lt b c = Some True"
    for a b c
  proof -
    have ne: "a \<noteq> c" using asym [OF ab] bc by auto
    have kab: "\<not> ?K b < ?K a" and kbc: "\<not> ?K c < ?K b"
      using ab bc by (auto simp: criticality_lessthan_key split: if_splits)
    show ?thesis
    proof (cases "?K a < ?K c")
      case True
      then show ?thesis using ne by (simp add: criticality_lessthan_key)
    next
      case False
      then have eab: "\<not> ?K a < ?K b" and ebc: "\<not> ?K b < ?K c" and kca: "\<not> ?K c < ?K a"
        using kab kbc by auto
      from ab eab have da: "crit_deps g dir a \<noteq> []" and d1: "crit_deep d g dir a b = Some True"
        by (auto simp: criticality_lessthan_key split: if_splits)
      from bc ebc have d2: "crit_deep d g dir b c = Some True"
        by (auto simp: criticality_lessthan_key split: if_splits)
      from d1 d2 obtain cl1 cl2 cl3
        where s1: "list_sort (criticality_lessthan d g dir) (crit_top g dir a) = Some cl1"
          and s2: "list_sort (criticality_lessthan d g dir) (crit_top g dir b) = Some cl2"
          and s3: "list_sort (criticality_lessthan d g dir) (crit_top g dir c) = Some cl3"
          and l12: "criticality_lessthan d g dir (last cl1) (last cl2) = Some True"
          and l23: "criticality_lessthan d g dir (last cl2) (last cl3) = Some True"
        unfolding crit_deep_Some by auto
      from Suc.IH [of "last cl1" "last cl2" "last cl3"] l12 l23
      have "criticality_lessthan d g dir (last cl1) (last cl3) = Some True" by blast
      then have "crit_deep d g dir a c = Some True"
        unfolding crit_deep_Some using s1 s3 by blast
      then show ?thesis using ne False kca da by (simp add: criticality_lessthan_key)
    qed
  qed
  have incomp: "?lt a c = Some False"
    if ab: "?lt a b = Some False" and ba: "?lt b a = Some False"
      and bc: "?lt b c = Some False" and cb: "?lt c b = Some False" for a b c
  proof (cases "a = c \<or> a = b \<or> b = c")
    case True
    then consider "a = c" | "a = b" | "b = c" by blast
    then show ?thesis
    proof cases
      case 1
      then show ?thesis by (simp add: criticality_lessthan_key)
    next
      case 2
      then show ?thesis using bc by simp
    next
      case 3
      then show ?thesis using ab by simp
    qed
  next
    case False
    then have ne: "a \<noteq> b" "b \<noteq> c" "a \<noteq> c" by auto
    have kab: "\<not> ?K a < ?K b" "\<not> ?K b < ?K a"
      using ab ba ne by (auto simp: criticality_lessthan_key split: if_splits)
    have kbc: "\<not> ?K b < ?K c" "\<not> ?K c < ?K b"
      using bc cb ne by (auto simp: criticality_lessthan_key split: if_splits)
    have kac: "\<not> ?K a < ?K c" "\<not> ?K c < ?K a" using kab kbc by auto
    show ?thesis
    proof (cases "crit_deps g dir a = []")
      case True
      then show ?thesis using ne kac by (simp add: criticality_lessthan_key)
    next
      case da: False
      then have db: "crit_deps g dir b \<noteq> []"
        using crit_key_eq_deps [OF kab] by simp
      from ab ba ne kab da db
      have d1: "crit_deep d g dir a b = Some False" and d1': "crit_deep d g dir b a = Some False"
        by (simp_all add: criticality_lessthan_key)
      have dc: "crit_deps g dir c \<noteq> []"
        using crit_key_eq_deps [OF kbc] db by simp
      from bc cb ne kbc db dc
      have d2: "crit_deep d g dir b c = Some False" and d2': "crit_deep d g dir c b = Some False"
        by (simp_all add: criticality_lessthan_key)
      from d1 d2 obtain cl1 cl2 cl3
        where s1: "list_sort (criticality_lessthan d g dir) (crit_top g dir a) = Some cl1"
          and s2: "list_sort (criticality_lessthan d g dir) (crit_top g dir b) = Some cl2"
          and s3: "list_sort (criticality_lessthan d g dir) (crit_top g dir c) = Some cl3"
          and l12: "criticality_lessthan d g dir (last cl1) (last cl2) = Some False"
          and l23: "criticality_lessthan d g dir (last cl2) (last cl3) = Some False"
        unfolding crit_deep_Some by auto
      from d1' d2' s1 s2 s3
      have l21: "criticality_lessthan d g dir (last cl2) (last cl1) = Some False"
        and l32: "criticality_lessthan d g dir (last cl3) (last cl2) = Some False"
        unfolding crit_deep_Some by auto
      from Suc.IH [of "last cl1" "last cl2" "last cl3"] l12 l21 l23 l32
      have "criticality_lessthan d g dir (last cl1) (last cl3) = Some False" by blast
      then have "crit_deep d g dir a c = Some False"
        unfolding crit_deep_Some using s1 s3 by blast
      then show ?thesis using ne kac da by (simp add: criticality_lessthan_key)
    qed
  qed
  show ?case using asym trans incomp by blast
qed


section \<open>Termination of the comparison on acyclic graphs\<close>

lemma insert_sorted_mset:
  "insert_sorted lt x ys = Some zs \<Longrightarrow> mset zs = add_mset x (mset ys)"
  by (induction ys arbitrary: zs) (auto split: option.splits bool.splits)

lemma list_sort_mset: "list_sort lt xs = Some ys \<Longrightarrow> mset ys = mset xs"
  by (induction xs arbitrary: ys) (auto split: option.splits dest: insert_sorted_mset)

lemma insert_sorted_defined:
  "\<forall>y \<in> set ys. lt y x \<noteq> None \<Longrightarrow> insert_sorted lt x ys \<noteq> None"
  by (induction ys) (auto split: option.splits bool.splits)

lemma list_sort_defined:
  "\<forall>x \<in> set xs. \<forall>y \<in> set xs. lt x y \<noteq> None \<Longrightarrow> list_sort lt xs \<noteq> None"
proof (induction xs)
  case Nil
  then show ?case by simp
next
  case (Cons x xs)
  then obtain ys where ys: "list_sort lt xs = Some ys" by auto
  have "set ys = set xs" using list_sort_mset [OF ys] by (metis set_mset_mset)
  then have "insert_sorted lt x ys \<noteq> None"
    using Cons.prems by (intro insert_sorted_defined) auto
  then show ?case using ys by simp
qed

lemma insert_sorted_mono:
  "insert_sorted lt x ys = Some zs \<Longrightarrow> \<forall>y \<in> set ys. \<forall>r. lt y x = Some r \<longrightarrow> lt' y x = Some r
     \<Longrightarrow> insert_sorted lt' x ys = Some zs"
  by (induction ys arbitrary: zs) (auto split: option.splits bool.splits)

lemma list_sort_mono:
  "list_sort lt xs = Some ys
     \<Longrightarrow> \<forall>x \<in> set xs. \<forall>y \<in> set xs. \<forall>r. lt x y = Some r \<longrightarrow> lt' x y = Some r
     \<Longrightarrow> list_sort lt' xs = Some ys"
proof (induction xs arbitrary: ys)
  case Nil
  then show ?case by simp
next
  case (Cons x xs)
  from Cons.prems(1) obtain zs where zs: "list_sort lt xs = Some zs"
    and ins: "insert_sorted lt x zs = Some ys"
    by (auto split: option.splits)
  have sz: "set zs = set xs" using list_sort_mset [OF zs] by (metis set_mset_mset)
  have "insert_sorted lt' x zs = Some ys"
  proof (rule insert_sorted_mono [OF ins])
    show "\<forall>y \<in> set zs. \<forall>r. lt y x = Some r \<longrightarrow> lt' y x = Some r"
      using Cons.prems(2) sz by simp
  qed
  moreover have "list_sort lt' xs = Some zs"
  proof (rule Cons.IH [OF zs])
    show "\<forall>x \<in> set xs. \<forall>y \<in> set xs. \<forall>r. lt x y = Some r \<longrightarrow> lt' x y = Some r"
      using Cons.prems(2) by simp
  qed
  ultimately show ?case by simp
qed

lemma crit_top_subset: "set (crit_top g dir n) \<subseteq> set (crit_deps g dir n)"
  by (auto simp: crit_top_def)

lemma crit_top_nonempty: "crit_deps g dir n \<noteq> [] \<Longrightarrow> crit_top g dir n \<noteq> []"
proof -
  assume ne: "crit_deps g dir n \<noteq> []"
  let ?sl = "sort_key (remaining g) (crit_deps g dir n)"
  have "?sl \<noteq> []" using ne by (metis length_sort length_0_conv)
  then have "last ?sl \<in> set ?sl" by (rule last_in_set)
  moreover have "\<not> remaining g (last ?sl) < crit_dep g dir n" by (simp add: crit_dep_def)
  ultimately have "last ?sl \<in> set (crit_top g dir n)"
    unfolding crit_top_def by (simp only: set_filter mem_Collect_eq simp_thms)
  then show ?thesis by auto
qed

lemma list_sort_last:
  "list_sort lt xs = Some ys \<Longrightarrow> xs \<noteq> [] \<Longrightarrow> last ys \<in> set xs"
proof -
  assume s: "list_sort lt xs = Some ys" and ne: "xs \<noteq> []"
  have m: "mset ys = mset xs" by (rule list_sort_mset [OF s])
  then have "ys \<noteq> []" using ne by auto
  then have "last ys \<in> set ys" by simp
  then show ?thesis using m by (metis set_mset_mset)
qed

lemma criticality_lessthan_mono:
  "criticality_lessthan d g dir a b = Some r \<Longrightarrow> criticality_lessthan (Suc d) g dir a b = Some r"
proof (induction d arbitrary: a b r)
  case 0
  then show ?case by simp
next
  case (Suc d)
  have deep: "crit_deep (Suc d) g dir a b = Some r" if "crit_deep d g dir a b = Some r"
  proof -
    from that obtain cl1 cl2
      where s1: "list_sort (criticality_lessthan d g dir) (crit_top g dir a) = Some cl1"
        and s2: "list_sort (criticality_lessthan d g dir) (crit_top g dir b) = Some cl2"
        and l: "criticality_lessthan d g dir (last cl1) (last cl2) = Some r"
      unfolding crit_deep_Some by blast
    have "list_sort (criticality_lessthan (Suc d) g dir) (crit_top g dir a) = Some cl1"
      by (rule list_sort_mono [OF s1]) (auto intro: Suc.IH)
    moreover have "list_sort (criticality_lessthan (Suc d) g dir) (crit_top g dir b) = Some cl2"
      by (rule list_sort_mono [OF s2]) (auto intro: Suc.IH)
    moreover have "criticality_lessthan (Suc d) g dir (last cl1) (last cl2) = Some r"
      by (rule Suc.IH [OF l])
    ultimately show ?thesis unfolding crit_deep_Some by blast
  qed
  show ?case
  proof (cases "a \<noteq> b \<and> \<not> crit_key g dir a < crit_key g dir b
      \<and> \<not> crit_key g dir b < crit_key g dir a \<and> crit_deps g dir a \<noteq> []")
    case True
    then have "crit_deep d g dir a b = Some r"
      using Suc.prems by (simp add: criticality_lessthan_key)
    then show ?thesis using True deep by (simp add: criticality_lessthan_key)
  next
    case False
    then show ?thesis
      using Suc.prems by (auto simp: criticality_lessthan_key split: if_splits)
  qed
qed

lemma criticality_lessthan_mono_le:
  "criticality_lessthan d g dir a b = Some r \<Longrightarrow> d \<le> d'
     \<Longrightarrow> criticality_lessthan d' g dir a b = Some r"
proof (induction "d' - d" arbitrary: d')
  case 0
  then show ?case by simp
next
  case (Suc n)
  then obtain e where e: "d' = Suc e" and le: "d \<le> e" and n: "n = e - d"
    by (cases d') auto
  from Suc.hyps(1) [OF n Suc.prems(1) le]
  show ?case unfolding e by (rule criticality_lessthan_mono)
qed

lemma criticality_lessthan_total:
  assumes rank: "\<And>n m. m \<in> set (crit_deps g dir n) \<Longrightarrow> h m < (h n :: nat)"
  shows "h a < d \<Longrightarrow> h b < d \<Longrightarrow> criticality_lessthan d g dir a b \<noteq> None"
proof (induction d arbitrary: a b)
  case 0
  then show ?case by simp
next
  case (Suc d)
  have sorted: "\<exists>cl. list_sort (criticality_lessthan d g dir) (crit_top g dir n) = Some cl
      \<and> (crit_deps g dir n \<noteq> [] \<longrightarrow> h (last cl) < d)" if n: "h n < Suc d" for n
  proof -
    have low: "h m < d" if "m \<in> set (crit_top g dir n)" for m
      using rank [of m n] crit_top_subset [of g dir n] that n by auto
    then have "\<forall>x \<in> set (crit_top g dir n). \<forall>y \<in> set (crit_top g dir n).
        criticality_lessthan d g dir x y \<noteq> None"
      using Suc.IH by blast
    then have "list_sort (criticality_lessthan d g dir) (crit_top g dir n) \<noteq> None"
      by (rule list_sort_defined)
    then obtain cl where cl: "list_sort (criticality_lessthan d g dir) (crit_top g dir n) = Some cl"
      by auto
    have "h (last cl) < d" if "crit_deps g dir n \<noteq> []"
      using list_sort_last [OF cl crit_top_nonempty [OF that]] low by simp
    then show ?thesis using cl by blast
  qed
  show ?case
  proof (cases "a \<noteq> b \<and> \<not> crit_key g dir a < crit_key g dir b
      \<and> \<not> crit_key g dir b < crit_key g dir a \<and> crit_deps g dir a \<noteq> []")
    case True
    then have db: "crit_deps g dir b \<noteq> []" using crit_key_eq_deps [of g dir a b] by simp
    from sorted [OF Suc.prems(1)] True obtain cl1
      where s1: "list_sort (criticality_lessthan d g dir) (crit_top g dir a) = Some cl1"
        and h1: "h (last cl1) < d" by blast
    from sorted [OF Suc.prems(2)] db obtain cl2
      where s2: "list_sort (criticality_lessthan d g dir) (crit_top g dir b) = Some cl2"
        and h2: "h (last cl2) < d" by blast
    have "criticality_lessthan d g dir (last cl1) (last cl2) \<noteq> None"
      by (rule Suc.IH [OF h1 h2])
    then have "crit_deep d g dir a b \<noteq> None" using s1 s2 by (simp add: crit_deep_def)
    then show ?thesis using True by (simp add: criticality_lessthan_key)
  next
    case False
    then show ?thesis by (auto simp: criticality_lessthan_key)
  qed
qed


lemma acyclic_rank:
  assumes fin: "finite r" and acyc: "acyclic r" and xy: "(x, y) \<in> r"
  shows "card {z. (y, z) \<in> r\<^sup>+} < card {z. (x, z) \<in> r\<^sup>+}"
proof (rule psubset_card_mono)
  have "{z. (x, z) \<in> r\<^sup>+} \<subseteq> Range r" by (auto elim: tranclE)
  then show "finite {z. (x, z) \<in> r\<^sup>+}" using fin by (meson finite_Range finite_subset)
  have "{z. (y, z) \<in> r\<^sup>+} \<subseteq> {z. (x, z) \<in> r\<^sup>+}" using xy by auto
  moreover have "y \<in> {z. (x, z) \<in> r\<^sup>+}" using xy by auto
  moreover have "y \<notin> {z. (y, z) \<in> r\<^sup>+}" using acyc by (auto simp: acyclic_def)
  ultimately show "{z. (y, z) \<in> r\<^sup>+} \<subset> {z. (x, z) \<in> r\<^sup>+}" by blast
qed

lemma rank_bound:
  assumes "finite r"
  shows "card {z. (x, z) \<in> r\<^sup>+} \<le> card r"
proof -
  have "z \<in> snd ` r" if "(x, z) \<in> r\<^sup>+" for z
    using that by (cases rule: tranclE) (force simp: image_iff)+
  then have "{z. (x, z) \<in> r\<^sup>+} \<subseteq> snd ` r" by blast
  then have "card {z. (x, z) \<in> r\<^sup>+} \<le> card (snd ` r)"
    using assms by (intro card_mono) auto
  also have "\<dots> \<le> card r" using assms by (rule card_image_le)
  finally show ?thesis .
qed

lemma get_depending_nodes_set:
  "set (get_depending_nodes g n dir ln) =
     set ln \<union> (if dir = forward_scheduling then tgt ` {a \<in> set (arcs g). src a = n}
                else src ` {a \<in> set (arcs g). tgt a = n})"
proof -
  have f: "set (fold (\<lambda>a ln'. if f a \<in> set ln' then ln' else ln' @ [f a]) as ln)
             = set ln \<union> f ` set as" for f :: "arc \<Rightarrow> node" and as ln
    by (induction as arbitrary: ln) auto
  show ?thesis
    by (auto simp: get_depending_nodes_def f out_arcs_def in_arcs_def)
qed

lemma dag_rank_decreases:
  assumes "dag g" and "m \<in> set (crit_deps g dir n)"
  shows "dag_rank g dir m < dag_rank g dir n"
proof -
  have fin: "finite (arc_rel g)" by (simp add: arc_rel_def)
  have acyc: "acyclic (arc_rel g)" using assms(1) by (simp add: dag_def arc_rel_def)
  show ?thesis
  proof (cases "dir = forward_scheduling")
    case True
    then have "(n, m) \<in> arc_rel g"
      using assms(2) by (auto simp: crit_deps_def get_depending_nodes_set arc_rel_def)
    from acyclic_rank [OF fin acyc this] show ?thesis using True by (simp add: dag_rank_def)
  next
    case False
    then have "(n, m) \<in> (arc_rel g)\<inverse>"
      using assms(2) by (auto simp: crit_deps_def get_depending_nodes_set arc_rel_def)
    from acyclic_rank [OF _ _ this] fin acyc show ?thesis
      using False by (simp add: dag_rank_def)
  qed
qed

lemma dag_rank_bound: "dag_rank g dir n < Suc (length (arcs g))"
proof -
  have fin: "finite (arc_rel g)" by (simp add: arc_rel_def)
  have c: "card (arc_rel g) \<le> length (arcs g)"
    unfolding arc_rel_def by (metis card_length length_map)
  have cc: "card ((arc_rel g)\<inverse>) = card (arc_rel g)" by (rule card_inverse)
  have f: "card {z. (n, z) \<in> (arc_rel g)\<^sup>+} \<le> length (arcs g)"
    using rank_bound [OF fin, of n] c by simp
  have b: "card {z. (n, z) \<in> ((arc_rel g)\<inverse>)\<^sup>+} \<le> length (arcs g)"
    using rank_bound [of "(arc_rel g)\<inverse>" n] fin c cc by simp
  show ?thesis using f b by (simp add: dag_rank_def)
qed

lemma criticality_lessthan_dag:
  assumes "dag g"
  shows "criticality_lessthan (Suc (length (arcs g))) g dir a b \<noteq> None"
  by (rule criticality_lessthan_total [of g dir "dag_rank g dir"])
     (auto intro: dag_rank_decreases [OF assms] dag_rank_bound)


lemma ex_graph3_remaining:
  "map (remaining (set_remaining forward_scheduling (ex_graph3 opts))) [0, 1, 2, 3, 4]
     = [3, 2, 1, 1, 0]"
  unfolding ex_graph3_eq ex_ckt3_def by code_simp

lemma ex_graph3_criticality:
  "criticality_lessthan 7 (set_remaining forward_scheduling (ex_graph3 opts))
     forward_scheduling 3 1 = Some True"
  "criticality_lessthan 7 (set_remaining forward_scheduling (ex_graph3 opts))
     forward_scheduling 1 0 = Some True"
  "criticality_lessthan 7 (set_remaining forward_scheduling (ex_graph3 opts))
     forward_scheduling 2 3 = Some False"
  "criticality_lessthan 7 (set_remaining forward_scheduling (ex_graph3 opts))
     forward_scheduling 3 2 = Some False"
  unfolding ex_graph3_eq ex_ckt3_def by code_simp+

lemma arcs_set_remaining [simp]: "arcs (set_remaining dir g) = arcs g"
  using cycles_only_set_remaining [of g g dir] by (simp add: cycles_only_def)

lemma ex_graph3_dag: "dag (set_remaining forward_scheduling (ex_graph3 opts))"
  by (rule dag_forward) (simp add: ex_graph3_eq)

text \<open>
  C6. For every scheduler state and direction, and whenever the comparisons return:
  \<open>criticality_lessthan\<close> is irreflexive, asymmetric and transitive, and incomparability
  is transitive; a result does not change when more depth is allowed; and on a graph
  without a directed cycle every comparison returns within a depth of one more than the
  number of arcs.
\<close>

theorem criticality_lessthan_strict_weak_order:
  "criticality_lessthan (Suc d) g dir a a = Some False
   \<and> (criticality_lessthan d g dir a b = Some True \<longrightarrow>
        criticality_lessthan d g dir b a = Some False)
   \<and> (criticality_lessthan d g dir a b = Some True \<longrightarrow>
        criticality_lessthan d g dir b c = Some True \<longrightarrow>
        criticality_lessthan d g dir a c = Some True)
   \<and> (criticality_lessthan d g dir a b = Some False \<longrightarrow>
        criticality_lessthan d g dir b a = Some False \<longrightarrow>
        criticality_lessthan d g dir b c = Some False \<longrightarrow>
        criticality_lessthan d g dir c b = Some False \<longrightarrow>
        criticality_lessthan d g dir a c = Some False
        \<and> criticality_lessthan d g dir c a = Some False)
   \<and> (criticality_lessthan d g dir a b = Some r \<longrightarrow> d \<le> d' \<longrightarrow>
        criticality_lessthan d' g dir a b = Some r)
   \<and> (dag g \<longrightarrow> criticality_lessthan (Suc (length (arcs g))) g dir a b \<noteq> None)"
  using criticality_order [of d g dir a b c] criticality_lessthan_mono_le [of d g dir a b r d']
    criticality_lessthan_dag [of g dir a b]
  by (simp add: criticality_lessthan_key)

theorem criticality_lessthan_strict_weak_order_witness:
  "criticality_lessthan 7 (set_remaining forward_scheduling
      (ex_graph3 (ex_options ''ASAP'' ''no'' ''no''))) forward_scheduling 3 1 = Some True
   \<and> criticality_lessthan 7 (set_remaining forward_scheduling
      (ex_graph3 (ex_options ''ASAP'' ''no'' ''no''))) forward_scheduling 1 0 = Some True
   \<and> criticality_lessthan 7 (set_remaining forward_scheduling
      (ex_graph3 (ex_options ''ASAP'' ''no'' ''no''))) forward_scheduling 1 3 = Some False
   \<and> criticality_lessthan 7 (set_remaining forward_scheduling
      (ex_graph3 (ex_options ''ASAP'' ''no'' ''no''))) forward_scheduling 3 0 = Some True
   \<and> criticality_lessthan 7 (set_remaining forward_scheduling
      (ex_graph3 (ex_options ''ASAP'' ''no'' ''no''))) forward_scheduling 2 3 = Some False
   \<and> criticality_lessthan 7 (set_remaining forward_scheduling
      (ex_graph3 (ex_options ''ASAP'' ''no'' ''no''))) forward_scheduling 3 2 = Some False
   \<and> criticality_lessthan 8 (set_remaining forward_scheduling
      (ex_graph3 (ex_options ''ASAP'' ''no'' ''no''))) forward_scheduling 3 1 = Some True
   \<and> dag (set_remaining forward_scheduling (ex_graph3 (ex_options ''ASAP'' ''no'' ''no'')))
   \<and> Suc (length (arcs (set_remaining forward_scheduling
          (ex_graph3 (ex_options ''ASAP'' ''no'' ''no''))))) = 7"
proof -
  let ?g = "set_remaining forward_scheduling (ex_graph3 (ex_options ''ASAP'' ''no'' ''no''))"
  have len: "Suc (length (arcs ?g)) = 7" by (simp add: ex_graph3_eq)
  show ?thesis
    using criticality_lessthan_strict_weak_order [where d = 7 and g = ?g
        and dir = forward_scheduling and a = 3 and b = 1 and c = 0 and r = True and d' = 8]
      ex_graph3_criticality [of "ex_options ''ASAP'' ''no'' ''no''"]
      ex_graph3_dag [of "ex_options ''ASAP'' ''no'' ''no''"] len
    by simp
qed

end
